theory Spec2Isabelle
  imports Complex_Main "HOL-Library.Multiset"
begin

section \<open>The race engine of race-engine-starter.js\<close>

text \<open>
  The development embeds the simulation loop \<^verbatim>\<open>runRace\<close> and its helpers
  \<^verbatim>\<open>applyPercentBigInt\<close> and \<^verbatim>\<open>racerSpeedTick\<close>.

  Conventions of the embedding.
  \<^item> JavaScript numbers that carry distances, speeds and probabilities are modelled by
    exact rationals; the three stats are naturals (they are read from \<^verbatim>\<open>uint8\<close>
    fields of the contract).
  \<^item> \<^verbatim>\<open>currentPriceWei\<close> is the decimal rendering of a \<^verbatim>\<open>uint256\<close>; the model
    keeps the integer it denotes (\<^verbatim>\<open>BigInt(s)\<close> and \<^verbatim>\<open>.toString()\<close> are inverse on
    such strings). BigInt division truncates toward zero and is written out.
  \<^item> \<^verbatim>\<open>Math.random()\<close> is an oracle \<open>rng :: nat \<Rightarrow> rat\<close>: the \<open>n\<close>-th call of the
    run returns \<open>rng n\<close>; the number of calls made so far is part of the state.
  \<^item> \<^verbatim>\<open>postUpdatePrice\<close> is an oracle \<open>net :: nat \<Rightarrow> bool\<close>: the \<open>n\<close>-th call of
    the run succeeds iff \<open>net n\<close>; otherwise it throws.
  \<^item> console output is a list of events, appended in program order.
\<close>

subsection \<open>Constants\<close>

definition RACE_DISTANCE :: rat where "RACE_DISTANCE = 5000"
definition BASE_DRIFT :: rat where "BASE_DRIFT = 5"
definition OVERTAKE_BONUS_PCT :: int where "OVERTAKE_BONUS_PCT = 10"
definition CRASH_PENALTY_PCT :: int where "CRASH_PENALTY_PCT = 20"
definition WINNER_BONUS_PCT :: int where "WINNER_BONUS_PCT = 5"

subsection \<open>Percentage arithmetic on BigInt\<close>

text \<open>The \<^verbatim>\<open>/\<close> of BigInt: the quotient rounded toward zero.\<close>

definition bigint_div :: "int \<Rightarrow> int \<Rightarrow> int" where
  "bigint_div a b = sgn a * sgn b * (\<bar>a\<bar> div \<bar>b\<bar>)"

definition applyPercentBigInt :: "int \<Rightarrow> int \<Rightarrow> bool \<Rightarrow> int" where
  "applyPercentBigInt val pct increase =
     (let change = bigint_div (val * pct) 100
      in if increase then val + change else val - change)"

text \<open>
  The three price changes of the loop, as it calls the helper: \<^verbatim>\<open>+10%\<close> for an
  overtake, \<^verbatim>\<open>-20%\<close> for a crash, \<^verbatim>\<open>+5%\<close> for a finish.
\<close>

datatype adjustment = OvertakeBonus | CrashPenalty | WinnerBonus

fun adjust :: "adjustment \<Rightarrow> int \<Rightarrow> int" where
  "adjust OvertakeBonus p = applyPercentBigInt p OVERTAKE_BONUS_PCT True"
| "adjust CrashPenalty p = applyPercentBigInt p CRASH_PENALTY_PCT False"
| "adjust WinnerBonus p = applyPercentBigInt p WINNER_BONUS_PCT True"

subsection \<open>Speed sample of one tick\<close>

text \<open>
  \<^verbatim>\<open>racerSpeedTick({speed, aggression, consistency})\<close>; \<open>u1\<close> is the value of the first
  \<^verbatim>\<open>Math.random()\<close> call (noise) and \<open>u2\<close> of the second (burst).
  \<^verbatim>\<open>(racer.consistency || 100)\<close> replaces a falsy consistency, that is \<open>0\<close>, by \<open>100\<close>.
  The result is the exact value of the expression, which the program rounds at every
  operation; the statements below that evaluate it do so at inputs where every
  intermediate value is a short binary fraction, or use only bounds with a margin far
  above the rounding error.
\<close>

definition racerSpeedTick :: "nat \<Rightarrow> nat \<Rightarrow> nat \<Rightarrow> rat \<Rightarrow> rat \<Rightarrow> rat" where
  "racerSpeedTick speed aggression consistency u1 u2 =
     (let consistencyFactor = of_nat (if consistency = 0 then 100 else consistency) / 200;
          noise = (u1 * BASE_DRIFT * (1 - consistencyFactor))
                    - (BASE_DRIFT / 2) * (1 - consistencyFactor);
          aggressionBurst = (if u2 < of_nat aggression / 500 then of_nat aggression / 20 else 0)
      in max 0 (of_nat speed + aggressionBurst + noise))"

text \<open>
  The formula of the specification, section 4.1, in its own words: the consistency
  factor is \<open>consistency / 200\<close> for every consistency.
\<close>

definition spec_speedSample :: "nat \<Rightarrow> nat \<Rightarrow> nat \<Rightarrow> rat \<Rightarrow> rat \<Rightarrow> rat" where
  "spec_speedSample speedStat aggression consistency u1 u2 =
     (let consistencyFactor = of_nat consistency / 200;
          noise = (u1 * BASE_DRIFT) * (1 - consistencyFactor)
                    - (BASE_DRIFT / 2) * (1 - consistencyFactor);
          aggressionBurst = (if u2 < of_nat aggression / 500 then of_nat aggression / 20 else 0)
      in max 0 (of_nat speedStat + aggressionBurst + noise))"

subsection \<open>Race state\<close>

text \<open>One element of the array \<^verbatim>\<open>state\<close>; \<open>rid\<close> is the field \<^verbatim>\<open>id\<close>.\<close>

record participant =
  rid :: nat
  name :: string
  speedStat :: nat
  aggression :: nat
  consistency :: nat
  distance :: rat
  finished :: bool
  currentPriceWei :: int

text \<open>One element of the answer of \<^verbatim>\<open>GET /racers\<close>.\<close>

record api_racer =
  api_id :: nat
  api_name :: string
  api_speed :: nat
  api_aggression :: nat
  api_consistency :: nat
  api_currentPrice :: int

datatype error = TransportError | TypeError

datatype event =
    Overtake nat nat nat
  | Crash nat
  | Finish nat
  | WriteOk nat int
  | WriteFailed nat int

text \<open>
  What the loop shares with the outside: \<open>rnd\<close> counts the calls of \<^verbatim>\<open>Math.random\<close>,
  \<open>posts\<close> the calls of \<^verbatim>\<open>postUpdatePrice\<close>, \<open>log\<close> is the console. An
  \<open>Overtake id old new\<close> line carries the two ranks, \<open>WriteOk\<close>/\<open>WriteFailed\<close> the
  id and the price of the request.
\<close>

record world =
  rnd :: nat
  posts :: nat
  log :: "event list"

text \<open>
  The variables of \<^verbatim>\<open>runRace\<close>: the array \<open>state\<close>, its ad-hoc property
  \<^verbatim>\<open>state._lastOrder\<close> (\<open>None\<close> while undefined), \<open>tick\<close>, and the world.
\<close>

record race =
  state :: "participant list"
  lastOrder :: "nat list option"
  tick :: nat
  io :: world

definition say :: "event \<Rightarrow> world \<Rightarrow> world" where
  "say e w = w\<lparr>log := log w @ [e]\<rparr>"

text \<open>\<^verbatim>\<open>Math.random()\<close>: the next draw, and the world after the call.\<close>

definition mathRandom :: "(nat \<Rightarrow> rat) \<Rightarrow> world \<Rightarrow> rat \<times> world" where
  "mathRandom rng w = (rng (rnd w), w\<lparr>rnd := rnd w + 1\<rparr>)"

text \<open>\<^verbatim>\<open>postUpdatePrice(id, priceWeiStr)\<close>: returns, or throws when the request fails.\<close>

definition postUpdatePrice :: "(nat \<Rightarrow> bool) \<Rightarrow> nat \<Rightarrow> int \<Rightarrow> world \<Rightarrow> (error + unit) \<times> world" where
  "postUpdatePrice net i price w =
     ((if net (posts w) then Inr () else Inl TransportError), w\<lparr>posts := posts w + 1\<rparr>)"

text \<open>
  The \<^verbatim>\<open>try { await postUpdatePrice(..); console.log(..) } catch (e) { console.error(..) }\<close>
  block that follows each of the three price changes.
\<close>

definition tryPost :: "(nat \<Rightarrow> bool) \<Rightarrow> nat \<Rightarrow> int \<Rightarrow> world \<Rightarrow> world" where
  "tryPost net i price w =
     (case postUpdatePrice net i price w of
        (Inr _, w') \<Rightarrow> say (WriteOk i price) w'
      | (Inl e, w') \<Rightarrow> say (WriteFailed i price) w')"

text \<open>\<^verbatim>\<open>for (const r of state) body\<close>: the body may change \<open>r\<close> and the world.\<close>

fun forEach :: "('a \<Rightarrow> 'w \<Rightarrow> 'a \<times> 'w) \<Rightarrow> 'a list \<Rightarrow> 'w \<Rightarrow> 'a list \<times> 'w" where
  "forEach body [] w = ([], w)"
| "forEach body (r # rs) w =
     (case body r w of (r', w') \<Rightarrow>
        (case forEach body rs w' of (rs', w'') \<Rightarrow> (r' # rs', w'')))"

subsection \<open>The four passes of a tick\<close>

text \<open>Lines 211-219: advance every participant that has not finished.\<close>

definition advanceBody :: "(nat \<Rightarrow> rat) \<Rightarrow> participant \<Rightarrow> world \<Rightarrow> participant \<times> world" where
  "advanceBody rng r w =
     (if finished r then (r, w)
      else (case mathRandom rng w of (u1, w1) \<Rightarrow>
             (case mathRandom rng w1 of (u2, w2) \<Rightarrow>
               (let speed = racerSpeedTick (speedStat r) (aggression r) (consistency r) u1 u2
                in (r\<lparr>distance := distance r + speed\<rparr>, w2)))))"

text \<open>
  Line 222: \<^verbatim>\<open>state.sort((a,b) => Number(b.distance - a.distance))\<close>, a stable sort
  by distance, largest first.
\<close>

definition sortByDistance :: "participant list \<Rightarrow> participant list" where
  "sortByDistance st = sort_key (\<lambda>r. - distance r) st"

text \<open>\<^verbatim>\<open>prevOrder.indexOf(id)\<close>: the first index of \<open>x\<close>, or \<open>-1\<close>.\<close>

fun indexOf :: "nat list \<Rightarrow> nat \<Rightarrow> int" where
  "indexOf [] x = - 1"
| "indexOf (y # ys) x =
     (if y = x then 0 else (let k = indexOf ys x in if k < 0 then - 1 else k + 1))"

text \<open>
  \<^verbatim>\<open>state.find(x => x.id === id)\<close> returns a reference to the first matching element
  of the array, or \<^verbatim>\<open>undefined\<close>; the reference is modelled by the element's index.
\<close>

fun findRef :: "('a \<Rightarrow> bool) \<Rightarrow> 'a list \<Rightarrow> nat option" where
  "findRef P [] = None"
| "findRef P (x # xs) = (if P x then Some 0 else map_option Suc (findRef P xs))"

text \<open>
  Lines 234-246, the body of \<^verbatim>\<open>if (prevIndex > i)\<close>: \<open>k\<close> is the reference that
  \<^verbatim>\<open>find\<close> returned; the price of that element is raised in place, then posted.
\<close>

definition overtakeEvent ::
  "(nat \<Rightarrow> bool) \<Rightarrow> nat \<Rightarrow> nat \<Rightarrow> nat \<Rightarrow> nat \<Rightarrow> participant list \<Rightarrow> world
     \<Rightarrow> participant list \<times> world" where
  "overtakeEvent net c oldRank newRank k st w =
     (let racer = st ! k;
          w1 = say (Overtake c oldRank newRank) w;
          old = currentPriceWei racer;
          nw = applyPercentBigInt old OVERTAKE_BONUS_PCT True;
          st' = st[k := racer\<lparr>currentPriceWei := nw\<rparr>];
          w2 = tryPost net (rid racer) nw w1
      in (st', w2))"

text \<open>
  Lines 230-248: the loop over \<^verbatim>\<open>curOrder\<close>; the third argument is what is left of
  \<^verbatim>\<open>curOrder\<close> from index \<open>i\<close> on. Reading \<^verbatim>\<open>racer.name\<close> of \<^verbatim>\<open>undefined\<close> throws a
  TypeError, outside of any \<^verbatim>\<open>try\<close>.
\<close>

fun overtakeLoop ::
  "(nat \<Rightarrow> bool) \<Rightarrow> nat list \<Rightarrow> nat list \<Rightarrow> nat \<Rightarrow> participant list \<Rightarrow> world
     \<Rightarrow> error + (participant list \<times> world)" where
  "overtakeLoop net prevOrder [] i st w = Inr (st, w)"
| "overtakeLoop net prevOrder (c # rest) i st w =
     (let prevIndex = indexOf prevOrder c in
      if prevIndex > int i then
        (case findRef (\<lambda>x. rid x = c) st of
           None \<Rightarrow> Inl TypeError
         | Some k \<Rightarrow>
            (case overtakeEvent net c (nat (prevIndex + 1)) (i + 1) k st w of
               (st', w') \<Rightarrow> overtakeLoop net prevOrder rest (i + 1) st' w'))
      else overtakeLoop net prevOrder rest (i + 1) st w)"

text \<open>Lines 224-250: initialise \<^verbatim>\<open>_lastOrder\<close> on the first tick, detect overtakes later.\<close>

definition overtakePass :: "(nat \<Rightarrow> bool) \<Rightarrow> race \<Rightarrow> error + race" where
  "overtakePass net s =
     (case lastOrder s of
        None \<Rightarrow> Inr (s\<lparr>lastOrder := Some (map rid (state s))\<rparr>)
      | Some prevOrder \<Rightarrow>
         (let curOrder = map rid (state s) in
          case overtakeLoop net prevOrder curOrder 0 (state s) (io s) of
            Inl e \<Rightarrow> Inl e
          | Inr (st', w') \<Rightarrow> Inr (s\<lparr>state := st', io := w', lastOrder := Some curOrder\<rparr>)))"

text \<open>
  Lines 253-276: the crash pass. \<open>crashProb\<close> is the exact value of the expression of
  line 259, which the program rounds at every operation; the statements below use of
  it only that it is positive and, for stats up to \<open>255\<close>, below \<open>1/2\<close>.
\<close>

definition crashProb :: "participant \<Rightarrow> rat" where
  "crashProb r =
     (let baseCrash = 2 / 1000;
          aggFactor = of_nat (aggression r) / 255;
          consFactor = 1 - (of_nat (consistency r) / 255)
      in baseCrash + (1 / 100 * aggFactor) + (1 / 100 * consFactor * aggFactor))"

text \<open>
  Lines 261-274, the body of \<^verbatim>\<open>if (Math.random() < crashProb)\<close>: the distance is cut, the
  price lowered in place, then posted.
\<close>

definition crashEvent :: "(nat \<Rightarrow> bool) \<Rightarrow> participant \<Rightarrow> world \<Rightarrow> participant \<times> world" where
  "crashEvent net r w =
     (let w1 = say (Crash (rid r)) w;
          r1 = r\<lparr>distance := max 0 (distance r - of_nat (speedStat r * 2))\<rparr>;
          old = currentPriceWei r1;
          nw = applyPercentBigInt old CRASH_PENALTY_PCT False;
          r2 = r1\<lparr>currentPriceWei := nw\<rparr>
      in (r2, tryPost net (rid r2) nw w1))"

definition crashBody ::
  "(nat \<Rightarrow> rat) \<Rightarrow> (nat \<Rightarrow> bool) \<Rightarrow> participant \<Rightarrow> world \<Rightarrow> participant \<times> world" where
  "crashBody rng net r w =
     (if finished r then (r, w)
      else (case mathRandom rng w of (u, w1) \<Rightarrow>
        if u < crashProb r then crashEvent net r w1 else (r, w1)))"

text \<open>Lines 279-294: the finish pass.\<close>

definition finishBody :: "(nat \<Rightarrow> bool) \<Rightarrow> participant \<Rightarrow> world \<Rightarrow> participant \<times> world" where
  "finishBody net r w =
     (if \<not> finished r \<and> distance r \<ge> RACE_DISTANCE then
        (let r1 = r\<lparr>finished := True\<rparr>;
             w1 = say (Finish (rid r1)) w;
             old = currentPriceWei r1;
             nw = applyPercentBigInt old WINNER_BONUS_PCT True;
             r2 = r1\<lparr>currentPriceWei := nw\<rparr>
         in (r2, tryPost net (rid r2) nw w1))
      else (r, w))"

subsection \<open>One tick and the loop\<close>

definition advancePass :: "(nat \<Rightarrow> rat) \<Rightarrow> race \<Rightarrow> race" where
  "advancePass rng s =
     (case forEach (advanceBody rng) (state s) (io s) of (st', w') \<Rightarrow> s\<lparr>state := st', io := w'\<rparr>)"

definition sortPass :: "race \<Rightarrow> race" where
  "sortPass s = s\<lparr>state := sortByDistance (state s)\<rparr>"

definition crashPass :: "(nat \<Rightarrow> rat) \<Rightarrow> (nat \<Rightarrow> bool) \<Rightarrow> race \<Rightarrow> race" where
  "crashPass rng net s =
     (case forEach (crashBody rng net) (state s) (io s) of (st', w') \<Rightarrow> s\<lparr>state := st', io := w'\<rparr>)"

definition finishPass :: "(nat \<Rightarrow> bool) \<Rightarrow> race \<Rightarrow> race" where
  "finishPass net s =
     (case forEach (finishBody net) (state s) (io s) of (st', w') \<Rightarrow> s\<lparr>state := st', io := w'\<rparr>)"

text \<open>
  The body of the \<^verbatim>\<open>while\<close> loop up to the test of line 297: count the tick, advance,
  sort, detect overtakes, crash pass, finish pass.
\<close>

definition raceTick :: "(nat \<Rightarrow> rat) \<Rightarrow> (nat \<Rightarrow> bool) \<Rightarrow> race \<Rightarrow> error + race" where
  "raceTick rng net s =
     (case overtakePass net (sortPass (advancePass rng (s\<lparr>tick := tick s + 1\<rparr>))) of
        Inl e \<Rightarrow> Inl e
      | Inr s3 \<Rightarrow> Inr (finishPass net (crashPass rng net s3)))"

text \<open>
  Lines 208-308. The loop leaves only through the \<^verbatim>\<open>break\<close> of line 304, after the
  final sort, or through an exception; a run that never leaves is \<open>None\<close>.
\<close>

partial_function (option) raceLoop ::
  "(nat \<Rightarrow> rat) \<Rightarrow> (nat \<Rightarrow> bool) \<Rightarrow> race \<Rightarrow> (error + race) option" where
  "raceLoop rng net s =
     (case raceTick rng net s of
        Inl e \<Rightarrow> Some (Inl e)
      | Inr s' \<Rightarrow>
          if list_all finished (state s')
          then Some (Inr (s'\<lparr>state := sortByDistance (state s')\<rparr>))
          else raceLoop rng net s')"

declare raceLoop.simps [code]

text \<open>Lines 191-206: the state at the first test of the loop.\<close>

definition initParticipant :: "api_racer \<Rightarrow> participant" where
  "initParticipant r =
     \<lparr>rid = api_id r, name = api_name r, speedStat = api_speed r,
      aggression = api_aggression r, consistency = api_consistency r,
      distance = 0, finished = False, currentPriceWei = api_currentPrice r\<rparr>"

definition initRace :: "api_racer list \<Rightarrow> race" where
  "initRace racers =
     \<lparr>state = map initParticipant racers, lastOrder = None, tick = 0,
      io = \<lparr>rnd = 0, posts = 0, log = []\<rparr>\<rparr>"

text \<open>
  \<^verbatim>\<open>runRace\<close>: the answer of \<^verbatim>\<open>apiFetch('/racers')\<close> is given; a failed fetch throws,
  an empty roster returns before the loop (\<open>Inr None\<close>).
\<close>

definition runRace ::
  "(nat \<Rightarrow> rat) \<Rightarrow> (nat \<Rightarrow> bool) \<Rightarrow> error + api_racer list \<Rightarrow> (error + race option) option" where
  "runRace rng net fetched =
     (case fetched of
        Inl e \<Rightarrow> Some (Inl e)
      | Inr racers \<Rightarrow>
          if racers = [] then Some (Inr None)
          else map_option (map_sum id Some) (raceLoop rng net (initRace racers)))"

text \<open>\<open>n\<close> iterations of the loop body, without the test of line 297.\<close>

fun raceTicks :: "nat \<Rightarrow> (nat \<Rightarrow> rat) \<Rightarrow> (nat \<Rightarrow> bool) \<Rightarrow> race \<Rightarrow> error + race" where
  "raceTicks 0 rng net s = Inr s"
| "raceTicks (Suc n) rng net s =
     (case raceTick rng net s of Inl e \<Rightarrow> Inl e | Inr s' \<Rightarrow> raceTicks n rng net s')"

subsection \<open>Predicates of the statements\<close>

definition pricesNonneg :: "participant list \<Rightarrow> bool" where
  "pricesNonneg st = list_all (\<lambda>r. 0 \<le> currentPriceWei r) st"

text \<open>
  \<open>drift r r'\<close>: what may become of a participant \<open>r\<close> as the loop runs. Identity
  and stats stay; once finished it stays finished and keeps its distance; a non-negative
  price stays non-negative.
\<close>

definition drift :: "participant \<Rightarrow> participant \<Rightarrow> bool" where
  "drift r r' \<longleftrightarrow>
     rid r' = rid r \<and> name r' = name r \<and> speedStat r' = speedStat r
     \<and> aggression r' = aggression r \<and> consistency r' = consistency r
     \<and> (finished r \<longrightarrow> finished r' \<and> distance r' = distance r)
     \<and> (0 \<le> currentPriceWei r \<longrightarrow> 0 \<le> currentPriceWei r')"

text \<open>
  Two races that agree on everything the loop computes with: the array, the recorded
  order, the tick and the number of draws made. They may differ in the console and in
  the number of requests.
\<close>

definition sameRace :: "race \<Rightarrow> race \<Rightarrow> bool" where
  "sameRace s t \<longleftrightarrow>
     state s = state t \<and> lastOrder s = lastOrder t \<and> tick s = tick t
     \<and> rnd (io s) = rnd (io t)"

text \<open>
  The stats of a participant are in the range of the contract's \<^verbatim>\<open>uint8\<close> fields, and
  its speed is positive.
\<close>

definition statsOk :: "participant \<Rightarrow> bool" where
  "statsOk r \<longleftrightarrow> 1 \<le> speedStat r \<and> speedStat r \<le> 255 \<and> aggression r \<le> 255 \<and> consistency r \<le> 255"

text \<open>Every draw lies in the upper half of the range of \<^verbatim>\<open>Math.random\<close>.\<close>

definition upperDraws :: "(nat \<Rightarrow> rat) \<Rightarrow> bool" where
  "upperDraws rng \<longleftrightarrow> (\<forall>n. 1 / 2 \<le> rng n \<and> rng n < 1)"

text \<open>
  \<open>withinSteps k r\<close>: \<open>r\<close> has finished or is at most \<open>k\<close> steps of length \<open>5/16\<close>
  before the line.
\<close>

definition withinSteps :: "nat \<Rightarrow> participant \<Rightarrow> bool" where
  "withinSteps k r \<longleftrightarrow> statsOk r \<and> (finished r \<or> RACE_DISTANCE - of_nat k * (5 / 16) \<le> distance r)"

text \<open>
  A race of one participant with speed \<open>10\<close>, aggression \<open>0\<close> and consistency
  \<open>200\<close> that has not finished and stands at distance \<open>0\<close>.
\<close>

definition stuckAtStart :: "race \<Rightarrow> bool" where
  "stuckAtStart s \<longleftrightarrow>
     (\<exists>r. state s = [r] \<and> \<not> finished r \<and> distance r = 0 \<and> speedStat r = 10
          \<and> aggression r = 0 \<and> consistency r = 200)"

text \<open>The only thing the overtake pass does to a participant: it may change the price.\<close>

definition priceOnly :: "participant \<Rightarrow> participant \<Rightarrow> bool" where
  "priceOnly r r' \<longleftrightarrow>
     rid r' = rid r \<and> name r' = name r \<and> speedStat r' = speedStat r
     \<and> aggression r' = aggression r \<and> consistency r' = consistency r
     \<and> distance r' = distance r \<and> finished r' = finished r"

text \<open>
  The finish rule of the specification, sections 4.4 and 8, in its own words: a
  participant with \<open>distance \<ge> RACE_DISTANCE\<close> that is not marked yet is marked and
  its price becomes \<open>price + floor (price * 5 / 100)\<close>; any other participant is left
  as it is.
\<close>

definition spec_finish :: "participant \<Rightarrow> participant" where
  "spec_finish r =
     (if distance r \<ge> RACE_DISTANCE \<and> \<not> finished r
      then r\<lparr>finished := True,
             currentPriceWei := currentPriceWei r + \<lfloor>of_int (currentPriceWei r * 5) / (100 :: rat)\<rfloor>\<rparr>
      else r)"

text \<open>The number of \<open>Finish\<close> lines that the console holds for the id \<open>i\<close>.\<close>

definition finishLines :: "nat \<Rightarrow> world \<Rightarrow> nat" where
  "finishLines i w = count_list (log w) (Finish i)"

text \<open>
  Every participant of the array has one \<open>Finish\<close> line if it is marked finished, and
  none if it is not.
\<close>

definition finishLogged :: "race \<Rightarrow> bool" where
  "finishLogged s \<longleftrightarrow>
     list_all (\<lambda>r. finishLines (rid r) (io s) = (if finished r then 1 else 0)) (state s)"

text \<open>What the passes before the finish pass keep of a participant: its id and its mark.\<close>

definition sameFlag :: "participant \<Rightarrow> participant \<Rightarrow> bool" where
  "sameFlag r r' \<longleftrightarrow> rid r' = rid r \<and> finished r' = finished r"

text \<open>The \<open>Overtake\<close> lines of the console, in the order they were written.\<close>

fun isOvertake :: "event \<Rightarrow> bool" where
  "isOvertake (Overtake c oldRank newRank) = True"
| "isOvertake e = False"

definition overtakesIn :: "world \<Rightarrow> event list" where
  "overtakesIn w = filter isOvertake (log w)"

text \<open>
  The overtake rule of the specification, section 4.2, in its own words: for the id
  \<open>c\<close> at the new index \<open>i\<close>, look up its previous index \<open>p\<close>; if \<open>p > i\<close>, emit an
  Overtake event for that id with \<open>oldRank = p + 1\<close> and \<open>newRank = i + 1\<close>.
\<close>

definition overtakesAt :: "nat list \<Rightarrow> nat \<Rightarrow> nat \<Rightarrow> event list" where
  "overtakesAt previousOrder c i =
     (let p = indexOf previousOrder c
      in if p > int i then [Overtake c (nat (p + 1)) (i + 1)] else [])"

definition spec_overtakes :: "nat list \<Rightarrow> nat list \<Rightarrow> event list" where
  "spec_overtakes previousOrder newOrder =
     concat (map (\<lambda>i. overtakesAt previousOrder (newOrder ! i) i) [0..<length newOrder])"

text \<open>\<open>before xs a b\<close>: \<open>b\<close> stands somewhere behind the first \<open>a\<close> of \<open>xs\<close>.\<close>

definition before :: "'a list \<Rightarrow> 'a \<Rightarrow> 'a \<Rightarrow> bool" where
  "before xs a b \<longleftrightarrow> b \<in> set (drop 1 (dropWhile (\<lambda>x. x \<noteq> a) xs))"

text \<open>The price change that a line of the console records for the id \<open>i\<close>, if any.\<close>

fun adjustmentOf :: "nat \<Rightarrow> event \<Rightarrow> adjustment list" where
  "adjustmentOf i (Overtake c oldRank newRank) = (if c = i then [OvertakeBonus] else [])"
| "adjustmentOf i (Crash c) = (if c = i then [CrashPenalty] else [])"
| "adjustmentOf i (Finish c) = (if c = i then [WinnerBonus] else [])"
| "adjustmentOf i e = []"

text \<open>The price changes of the id \<open>i\<close> that the console records, oldest first.\<close>

definition priceTrail :: "nat \<Rightarrow> world \<Rightarrow> adjustment list" where
  "priceTrail i w = concat (map (adjustmentOf i) (log w))"

text \<open>
  The price of the participant \<open>r\<close> is its price \<open>base\<close> of the start with all
  recorded changes of its id applied in order; and so for every participant of the
  array.
\<close>

definition priceFollows :: "(nat \<Rightarrow> int) \<Rightarrow> participant \<Rightarrow> world \<Rightarrow> bool" where
  "priceFollows base r w \<longleftrightarrow>
     currentPriceWei r = fold adjust (priceTrail (rid r) w) (base (rid r))"

definition pricesFollow :: "(nat \<Rightarrow> int) \<Rightarrow> race \<Rightarrow> bool" where
  "pricesFollow base s \<longleftrightarrow> list_all (\<lambda>r. priceFollows base r (io s)) (state s)"

text \<open>Every participant of \<open>ys\<close> descends from one of \<open>xs\<close>.\<close>

definition evolves :: "participant list \<Rightarrow> participant list \<Rightarrow> bool" where
  "evolves xs ys \<longleftrightarrow> (\<forall>y \<in> set ys. \<exists>x \<in> set xs. drift x y)"

subsection \<open>Sample data\<close>

definition w0 :: world where
  "w0 = \<lparr>rnd = 0, posts = 0, log = []\<rparr>"

definition p1 :: participant where
  "p1 = \<lparr>rid = 1, name = ''ann'', speedStat = 10, aggression = 0, consistency = 200,
          distance = 3, finished = False, currentPriceWei = 1000\<rparr>"

definition p2 :: participant where
  "p2 = \<lparr>rid = 2, name = ''bob'', speedStat = 10, aggression = 0, consistency = 200,
          distance = 7, finished = False, currentPriceWei = 55\<rparr>"

text \<open>A participant minted with consistency \<open>0\<close>.\<close>

definition p0 :: participant where
  "p0 = \<lparr>rid = 3, name = ''cyd'', speedStat = 10, aggression = 0, consistency = 0,
          distance = 0, finished = False, currentPriceWei = 1000\<rparr>"

text \<open>A participant ten units before the line.\<close>

definition p4 :: participant where
  "p4 = \<lparr>rid = 4, name = ''dee'', speedStat = 10, aggression = 0, consistency = 200,
          distance = 4995, finished = False, currentPriceWei = 1000\<rparr>"

text \<open>A participant that has finished.\<close>

definition p5 :: participant where
  "p5 = \<lparr>rid = 5, name = ''eve'', speedStat = 10, aggression = 0, consistency = 200,
          distance = 5003, finished = True, currentPriceWei = 1050\<rparr>"

text \<open>A race after its first tick, in the order of that tick's sort.\<close>

definition s12 :: race where
  "s12 = \<lparr>state = [p1, p2], lastOrder = Some [1, 2], tick = 1, io = w0\<rparr>"

text \<open>
  A slow participant with full aggression five units before the line, a finished one
  behind the line, and a race in which the finished one leads.
\<close>

definition p6 :: participant where
  "p6 = \<lparr>rid = 6, name = ''fay'', speedStat = 1, aggression = 255, consistency = 200,
          distance = 4995, finished = False, currentPriceWei = 1000\<rparr>"

definition p7 :: participant where
  "p7 = \<lparr>rid = 7, name = ''gus'', speedStat = 10, aggression = 0, consistency = 200,
          distance = 5007, finished = True, currentPriceWei = 1050\<rparr>"

definition sLate :: race where
  "sLate = \<lparr>state = [p7, p6], lastOrder = Some [7, 6], tick = 9, io = w0\<rparr>"

text \<open>The prices of \<open>p1\<close> and \<open>p2\<close> at the start of their race.\<close>

definition base12 :: "nat \<Rightarrow> int" where
  "base12 i = (if i = 1 then 1000 else 55)"

text \<open>A race after its first tick in which the two participants are level.\<close>

definition sTied :: race where
  "sTied = \<lparr>state = [p1\<lparr>distance := 7\<rparr>, p2], lastOrder = Some [1, 2], tick = 1, io = w0\<rparr>"

text \<open>A race of one participant about to finish, before its first tick.\<close>

definition s4 :: race where
  "s4 = \<lparr>state = [p4], lastOrder = None, tick = 0, io = w0\<rparr>"

text \<open>A race of one participant two ticks before the line.\<close>

definition s4b :: race where
  "s4b = \<lparr>state = [p4\<lparr>distance := 4985\<rparr>], lastOrder = None, tick = 0, io = w0\<rparr>"

text \<open>A roster of one racer with a positive speed.\<close>

definition roster1 :: "api_racer list" where
  "roster1 = [\<lparr>api_id = 1, api_name = ''ann'', api_speed = 10, api_aggression = 0,
               api_consistency = 200, api_currentPrice = 1000\<rparr>]"

text \<open>A race in which one of two participants has finished.\<close>

definition s54 :: race where
  "s54 = \<lparr>state = [p5, p4], lastOrder = Some [5, 4], tick = 7, io = w0\<rparr>"

text \<open>Draws: all \<open>1/2\<close>, except one \<open>0\<close> at the given call.\<close>

definition drawsWithZeroAt :: "nat \<Rightarrow> nat \<Rightarrow> rat" where
  "drawsWithZeroAt k n = (if n = k then 0 else 1 / 2)"

section \<open>Percentage arithmetic\<close>

lemma bigint_div_nonneg: "0 \<le> a \<Longrightarrow> 0 < b \<Longrightarrow> bigint_div a b = a div b"
  by (cases "a = 0") (simp_all add: bigint_div_def)

lemma pct_overtake:
  "0 \<le> p \<Longrightarrow> applyPercentBigInt p OVERTAKE_BONUS_PCT True = p + p * 10 div 100"
  by (simp add: applyPercentBigInt_def OVERTAKE_BONUS_PCT_def bigint_div_nonneg)

lemma pct_crash:
  "0 \<le> p \<Longrightarrow> applyPercentBigInt p CRASH_PENALTY_PCT False = p - p * 20 div 100"
  by (simp add: applyPercentBigInt_def CRASH_PENALTY_PCT_def bigint_div_nonneg)

lemma pct_finish:
  "0 \<le> p \<Longrightarrow> applyPercentBigInt p WINNER_BONUS_PCT True = p + p * 5 div 100"
  by (simp add: applyPercentBigInt_def WINNER_BONUS_PCT_def bigint_div_nonneg)

lemma pct_overtake_nonneg: "0 \<le> p \<Longrightarrow> 0 \<le> applyPercentBigInt p OVERTAKE_BONUS_PCT True"
  by (simp add: pct_overtake)

lemma pct_crash_nonneg: "0 \<le> p \<Longrightarrow> 0 \<le> applyPercentBigInt p CRASH_PENALTY_PCT False"
  unfolding pct_crash by arith

lemma pct_finish_nonneg: "0 \<le> p \<Longrightarrow> 0 \<le> applyPercentBigInt p WINNER_BONUS_PCT True"
  by (simp add: pct_finish)

lemma adjust_zero_iff: "0 \<le> p \<Longrightarrow> adjust a p = 0 \<longleftrightarrow> p = 0"
proof (cases a)
  case OvertakeBonus
  assume "0 \<le> p"
  then show ?thesis unfolding OvertakeBonus adjust.simps pct_overtake[OF \<open>0 \<le> p\<close>] by arith
next
  case CrashPenalty
  assume "0 \<le> p"
  then show ?thesis unfolding CrashPenalty adjust.simps pct_crash[OF \<open>0 \<le> p\<close>] by arith
next
  case WinnerBonus
  assume "0 \<le> p"
  then show ?thesis unfolding WinnerBonus adjust.simps pct_finish[OF \<open>0 \<le> p\<close>] by arith
qed

lemma adjust_nonneg: "0 \<le> p \<Longrightarrow> 0 \<le> adjust a p"
  by (cases a) (simp_all add: pct_overtake_nonneg pct_crash_nonneg pct_finish_nonneg)

lemma adjust_pos: "0 < p \<Longrightarrow> 0 < adjust a p"
  using adjust_zero_iff[of p a] adjust_nonneg[of p a] by linarith

lemma fold_adjust_pos: "0 < p \<Longrightarrow> 0 < fold adjust evs p"
  by (induction evs arbitrary: p) (simp_all add: adjust_pos)

lemma fold_adjust_zero: "fold adjust evs 0 = 0"
proof (induction evs)
  case Nil
  show ?case by simp
next
  case (Cons a evs)
  have "adjust a 0 = 0" using adjust_zero_iff[of 0 a] by simp
  with Cons show ?case by simp
qed

text \<open>
  Claim C10. Each of the three price changes maps a non-negative price to \<open>0\<close> only
  when the price is \<open>0\<close>; so a positive price stays positive through any sequence
  of overtake, crash and finish changes, and the price \<open>0\<close> never moves.
\<close>

theorem price_zero_only_from_zero:
  "0 \<le> p \<Longrightarrow>
     (adjust a p = 0 \<longleftrightarrow> p = 0)
     \<and> (0 < p \<longrightarrow> 0 < fold adjust evs p)
     \<and> fold adjust evs 0 = 0"
  using adjust_zero_iff fold_adjust_pos fold_adjust_zero by blast

theorem price_zero_only_from_zero_witness:
  "(0::int) \<le> 7
   \<and> (adjust CrashPenalty 7 = 0 \<longleftrightarrow> (7::int) = 0)
   \<and> (0::int) < 7 \<and> 0 < fold adjust [CrashPenalty, OvertakeBonus, WinnerBonus] 7
   \<and> fold adjust [CrashPenalty, OvertakeBonus, WinnerBonus] 0 = 0"
  using price_zero_only_from_zero[of 7 CrashPenalty "[CrashPenalty, OvertakeBonus, WinnerBonus]"]
  by simp

section \<open>The speed sample\<close>

text \<open>
  Claim C1. The claim takes \<open>consistency / 200\<close> as the factor for every consistency,
  \<open>0\<close> included; the program evaluates \<^verbatim>\<open>(racer.consistency || 100) / 200\<close> and so
  takes \<open>100 / 200\<close> for a participant minted with consistency \<open>0\<close>. For \<open>p0\<close>
  (speed \<open>10\<close>, aggression \<open>0\<close>, consistency \<open>0\<close>) and both draws \<open>0\<close> the program
  adds \<open>35/4\<close> to the distance where the formula of the claim gives \<open>15/2\<close>. Every
  value of this computation (\<open>1/2\<close>, \<open>5/4\<close>, \<open>35/4\<close>, \<open>5/2\<close>, \<open>15/2\<close>) is a
  binary fraction, so the program's floating-point arithmetic gives the same numbers.
\<close>

theorem consistency_zero_speed_sample:
  "racerSpeedTick (speedStat p0) (aggression p0) (consistency p0) 0 0 = 35 / 4
   \<and> distance (fst (advanceBody (\<lambda>n. 0) p0 w0)) = distance p0 + 35 / 4
   \<and> spec_speedSample (speedStat p0) (aggression p0) (consistency p0) 0 0 = 15 / 2"
  by (simp add: advanceBody_def mathRandom_def racerSpeedTick_def spec_speedSample_def
        p0_def w0_def BASE_DRIFT_def)

section \<open>Overtakes\<close>

lemma findRef_Some:
  "findRef P xs = Some k \<Longrightarrow> k < length xs \<and> P (xs ! k) \<and> (\<forall>j<k. \<not> P (xs ! j))"
proof (induction xs arbitrary: k)
  case Nil
  then show ?case by simp
next
  case (Cons x xs)
  show ?case
  proof (cases "P x")
    case True
    with Cons.prems show ?thesis by simp
  next
    case False
    with Cons.prems obtain k' where k': "findRef P xs = Some k'" "k = Suc k'" by auto
    from Cons.IH[OF k'(1)] False k'(2) show ?thesis
      by (auto simp: less_Suc_eq_0_disj)
  qed
qed

lemma tryPost_posts: "posts (tryPost net i p w) = posts w + 1"
  by (simp add: tryPost_def postUpdatePrice_def say_def)

lemma tryPost_rnd: "rnd (tryPost net i p w) = rnd w"
  by (simp add: tryPost_def postUpdatePrice_def say_def)

lemma tryPost_log:
  "log (tryPost net i p w) = log w @ [if net (posts w) then WriteOk i p else WriteFailed i p]"
  by (simp add: tryPost_def postUpdatePrice_def say_def)

text \<open>
  Claim C3. When the loop finds a participant whose previous index is greater than its
  index \<open>i\<close>, it continues with the state in which that participant's price is
  \<open>price + price * 10 div 100\<close>, whatever the transport answers; the request is made
  once, and its outcome is only written to the log.
\<close>

theorem overtake_price_regardless_of_write:
  assumes "indexOf prevOrder c > int i"
    and "findRef (\<lambda>x. rid x = c) st = Some k"
    and "0 \<le> currentPriceWei (st ! k)"
    and "newPrice = currentPriceWei (st ! k) + currentPriceWei (st ! k) * 10 div 100"
    and "oldRank = nat (indexOf prevOrder c + 1)"
    and "ev = overtakeEvent net c oldRank (i + 1) k st w"
  shows "overtakeLoop net prevOrder (c # rest) i st w =
           overtakeLoop net prevOrder rest (i + 1) (fst ev) (snd ev)
       \<and> fst ev = st[k := (st ! k)\<lparr>currentPriceWei := newPrice\<rparr>]
       \<and> currentPriceWei (fst ev ! k) = newPrice
       \<and> posts (snd ev) = posts w + 1
       \<and> rnd (snd ev) = rnd w
       \<and> log (snd ev) = log w @ [Overtake c oldRank (i + 1),
             if net (posts w) then WriteOk (rid (st ! k)) newPrice
             else WriteFailed (rid (st ! k)) newPrice]"
proof -
  have k: "k < length st" using findRef_Some[OF assms(2)] by simp
  show ?thesis using assms k
    by (simp add: overtakeEvent_def Let_def pct_overtake tryPost_posts tryPost_rnd
          tryPost_log say_def split: prod.splits)
qed

theorem overtake_price_regardless_of_write_witness:
  "indexOf [1, 2] 2 > int 0
   \<and> findRef (\<lambda>x. rid x = 2) [p2, p1] = Some 0
   \<and> 0 \<le> currentPriceWei ([p2, p1] ! 0)
   \<and> fst (overtakeEvent (\<lambda>_. False) 2 2 (0 + 1) 0 [p2, p1] w0)
         = [p2\<lparr>currentPriceWei := 60\<rparr>, p1]
   \<and> log (snd (overtakeEvent (\<lambda>_. False) 2 2 (0 + 1) 0 [p2, p1] w0))
         = [Overtake 2 2 1, WriteFailed 2 60]"
  using overtake_price_regardless_of_write[of 0 "[1, 2]" 2 "[p2, p1]" 0 60 2 _ "\<lambda>_. False" w0 "[]"]
  by (simp add: p1_def p2_def w0_def)

section \<open>Loops over the array\<close>

lemma forEach_all2:
  assumes "\<And>r w. R r (fst (body r w))"
  shows "list_all2 R rs (fst (forEach body rs w))"
proof (induction rs arbitrary: w)
  case Nil
  show ?case by simp
next
  case (Cons r rs)
  obtain r' w' where b: "body r w = (r', w')" by (cases "body r w")
  obtain rs' w'' where f: "forEach body rs w' = (rs', w'')" by (cases "forEach body rs w'")
  have "R r r'" using assms[of r w] b by simp
  moreover have "list_all2 R rs rs'" using Cons.IH[of w'] f by simp
  ultimately show ?case using b f by simp
qed

lemma forEach_world:
  assumes "\<And>r w. Q w \<Longrightarrow> Q (snd (body r w))" and "Q w"
  shows "Q (snd (forEach body rs w))"
  using assms(2)
proof (induction rs arbitrary: w)
  case Nil
  then show ?case by simp
next
  case (Cons r rs)
  obtain r' w' where b: "body r w = (r', w')" by (cases "body r w")
  obtain rs' w'' where f: "forEach body rs w' = (rs', w'')" by (cases "forEach body rs w'")
  have "Q w'" using assms(1)[OF Cons.prems, of r] b by simp
  from Cons.IH[OF this] f b show ?case by simp
qed

section \<open>Drift\<close>

lemma drift_refl: "drift r r"
  by (simp add: drift_def)

lemma drift_trans: "drift a b \<Longrightarrow> drift b c \<Longrightarrow> drift a c"
  by (simp add: drift_def)

lemma all2_drift_refl: "list_all2 drift xs xs"
  by (simp add: list_all2_refl drift_refl)

lemma all2_drift_trans: "list_all2 drift xs ys \<Longrightarrow> list_all2 drift ys zs \<Longrightarrow> list_all2 drift xs zs"
  by (rule list_all2_trans[where ?P1.0 = drift and ?P2.0 = drift]) (blast intro: drift_trans)+

lemma all2_drift_rids: "list_all2 drift xs ys \<Longrightarrow> map rid ys = map rid xs"
  by (induction rule: list_all2_induct) (simp_all add: drift_def)

lemma all2_drift_evolves: "list_all2 drift xs ys \<Longrightarrow> evolves xs ys"
  unfolding evolves_def by (metis in_set_conv_nth list_all2_conv_all_nth)

lemma evolves_trans: "evolves xs ys \<Longrightarrow> evolves ys zs \<Longrightarrow> evolves xs zs"
  unfolding evolves_def by (meson drift_trans)

lemma evolves_refl: "evolves xs xs"
  unfolding evolves_def using drift_refl by blast

lemma evolves_sort: "evolves xs (sortByDistance xs)"
  unfolding evolves_def sortByDistance_def using drift_refl by auto

lemma advanceBody_drift: "drift r (fst (advanceBody rng r w))"
  by (simp add: advanceBody_def drift_def mathRandom_def Let_def)

lemma crashBody_drift: "drift r (fst (crashBody rng net r w))"
  by (simp add: crashBody_def crashEvent_def drift_def mathRandom_def Let_def pct_crash_nonneg)

lemma finishBody_drift: "drift r (fst (finishBody net r w))"
  by (simp add: finishBody_def drift_def Let_def pct_finish_nonneg)

lemma overtakeEvent_fst:
  "fst (overtakeEvent net c old new k st w) =
     st[k := (st ! k)\<lparr>currentPriceWei := applyPercentBigInt (currentPriceWei (st ! k)) OVERTAKE_BONUS_PCT True\<rparr>]"
  by (simp add: overtakeEvent_def Let_def)

lemma all2_drift_update: "drift (st ! k) v \<Longrightarrow> list_all2 drift st (st[k := v])"
proof (cases "k < length st")
  case True
  assume "drift (st ! k) v"
  with True show ?thesis
    by (auto simp: list_all2_conv_all_nth nth_list_update drift_refl)
next
  case False
  then show ?thesis by (simp add: not_less list_update_beyond all2_drift_refl)
qed

lemma overtakeEvent_drift: "list_all2 drift st (fst (overtakeEvent net c old new k st w))"
  unfolding overtakeEvent_fst
  by (rule all2_drift_update) (simp add: drift_def pct_overtake_nonneg)

lemma findRef_None: "findRef P xs = None \<longleftrightarrow> (\<forall>x \<in> set xs. \<not> P x)"
  by (induction xs) auto

lemma overtakeLoop_ok:
  "set rest \<subseteq> rid ` set st \<Longrightarrow>
     \<exists>st' w'. overtakeLoop net prev rest i st w = Inr (st', w') \<and> list_all2 drift st st'"
proof (induction rest arbitrary: i st w)
  case Nil
  then show ?case by (simp add: all2_drift_refl)
next
  case (Cons c rest)
  show ?case
  proof (cases "indexOf prev c > int i")
    case False
    with Cons.IH[of st "i + 1" w] Cons.prems show ?thesis by simp
  next
    case True
    have "findRef (\<lambda>x. rid x = c) st \<noteq> None"
      using Cons.prems by (auto simp: findRef_None)
    then obtain k where k: "findRef (\<lambda>x. rid x = c) st = Some k" by auto
    obtain st1 w1 where ev: "overtakeEvent net c (nat (indexOf prev c + 1)) (i + 1) k st w = (st1, w1)"
      by (cases "overtakeEvent net c (nat (indexOf prev c + 1)) (i + 1) k st w")
    have d1: "list_all2 drift st st1"
      using overtakeEvent_drift[of st net c "nat (indexOf prev c + 1)" "i + 1" k w] ev by simp
    then have "rid ` set st1 = rid ` set st"
      using all2_drift_rids[OF d1] by (metis set_map)
    with Cons.prems have "set rest \<subseteq> rid ` set st1" by simp
    from Cons.IH[OF this, of "i + 1" w1] obtain st' w' where
      r: "overtakeLoop net prev rest (i + 1) st1 w1 = Inr (st', w')" "list_all2 drift st1 st'" by blast
    show ?thesis using True k ev r d1 by (auto intro: all2_drift_trans)
  qed
qed

lemma advancePass_state:
  "state (advancePass rng s) = fst (forEach (advanceBody rng) (state s) (io s))"
  by (cases "forEach (advanceBody rng) (state s) (io s)") (simp add: advancePass_def)

lemma crashPass_state:
  "state (crashPass rng net s) = fst (forEach (crashBody rng net) (state s) (io s))"
  by (cases "forEach (crashBody rng net) (state s) (io s)") (simp add: crashPass_def)

lemma finishPass_state:
  "state (finishPass net s) = fst (forEach (finishBody net) (state s) (io s))"
  by (cases "forEach (finishBody net) (state s) (io s)") (simp add: finishPass_def)

lemma advancePass_io:
  "io (advancePass rng s) = snd (forEach (advanceBody rng) (state s) (io s))"
  by (cases "forEach (advanceBody rng) (state s) (io s)") (simp add: advancePass_def)

lemma crashPass_io:
  "io (crashPass rng net s) = snd (forEach (crashBody rng net) (state s) (io s))"
  by (cases "forEach (crashBody rng net) (state s) (io s)") (simp add: crashPass_def)

lemma finishPass_io:
  "io (finishPass net s) = snd (forEach (finishBody net) (state s) (io s))"
  by (cases "forEach (finishBody net) (state s) (io s)") (simp add: finishPass_def)

lemma advancePass_other:
  "lastOrder (advancePass rng s) = lastOrder s \<and> tick (advancePass rng s) = tick s"
  by (cases "forEach (advanceBody rng) (state s) (io s)") (simp add: advancePass_def)

lemma crashPass_other:
  "lastOrder (crashPass rng net s) = lastOrder s \<and> tick (crashPass rng net s) = tick s"
  by (cases "forEach (crashBody rng net) (state s) (io s)") (simp add: crashPass_def)

lemma finishPass_other:
  "lastOrder (finishPass net s) = lastOrder s \<and> tick (finishPass net s) = tick s"
  by (cases "forEach (finishBody net) (state s) (io s)") (simp add: finishPass_def)

lemma advancePass_drift: "list_all2 drift (state s) (state (advancePass rng s))"
  unfolding advancePass_state by (rule forEach_all2) (rule advanceBody_drift)

lemma crashPass_drift: "list_all2 drift (state s) (state (crashPass rng net s))"
  unfolding crashPass_state by (rule forEach_all2) (rule crashBody_drift)

lemma finishPass_drift: "list_all2 drift (state s) (state (finishPass net s))"
  unfolding finishPass_state by (rule forEach_all2) (rule finishBody_drift)

lemma overtakePass_ok:
  "\<exists>s'. overtakePass net s = Inr s' \<and> list_all2 drift (state s) (state s')"
proof (cases "lastOrder s")
  case None
  then show ?thesis by (simp add: overtakePass_def all2_drift_refl)
next
  case (Some prevOrder)
  have "set (map rid (state s)) \<subseteq> rid ` set (state s)" by simp
  from overtakeLoop_ok[OF this, of net prevOrder 0 "io s"] obtain st' w' where
    "overtakeLoop net prevOrder (map rid (state s)) 0 (state s) (io s) = Inr (st', w')"
    "list_all2 drift (state s) st'" by blast
  with Some show ?thesis by (simp add: overtakePass_def)
qed

lemma raceTick_ok: "\<exists>s'. raceTick rng net s = Inr s' \<and> evolves (state s) (state s')"
proof -
  let ?s1 = "advancePass rng (s\<lparr>tick := tick s + 1\<rparr>)"
  have e1: "evolves (state s) (state ?s1)"
    using advancePass_drift[of "s\<lparr>tick := tick s + 1\<rparr>" rng] by (simp add: all2_drift_evolves)
  have e2: "evolves (state ?s1) (state (sortPass ?s1))"
    by (simp add: sortPass_def evolves_sort)
  obtain s3 where s3: "overtakePass net (sortPass ?s1) = Inr s3"
      "list_all2 drift (state (sortPass ?s1)) (state s3)"
    using overtakePass_ok by blast
  have e3: "evolves (state s3) (state (finishPass net (crashPass rng net s3)))"
    using all2_drift_trans[OF crashPass_drift finishPass_drift] by (rule all2_drift_evolves)
  have "evolves (state s) (state (finishPass net (crashPass rng net s3)))"
    using e1 e2 all2_drift_evolves[OF s3(2)] e3 by (blast intro: evolves_trans)
  then show ?thesis using s3(1) by (simp add: raceTick_def)
qed

lemma raceTicks_ok: "\<exists>s'. raceTicks n rng net s = Inr s' \<and> evolves (state s) (state s')"
proof (induction n arbitrary: s)
  case 0
  show ?case by (simp add: evolves_refl)
next
  case (Suc n)
  obtain s1 where s1: "raceTick rng net s = Inr s1" "evolves (state s) (state s1)"
    using raceTick_ok by blast
  from Suc[of s1] obtain s' where "raceTicks n rng net s1 = Inr s'" "evolves (state s1) (state s')"
    by blast
  with s1 show ?case by (auto intro: evolves_trans)
qed

lemma raceLoop_Some:
  "raceLoop rng net s = Some y \<Longrightarrow>
     \<exists>n s'. raceTicks (Suc n) rng net s = Inr s' \<and> list_all finished (state s')
        \<and> y = Inr (s'\<lparr>state := sortByDistance (state s')\<rparr>)"
proof (induction rule: raceLoop.raw_induct[rotated 1, consumes 1])
  case (1 loop rng net s y)
  obtain s1 where s1: "raceTick rng net s = Inr s1" using raceTick_ok by blast
  show ?case
  proof (cases "list_all finished (state s1)")
    case True
    with 1(2) s1 have "y = Inr (s1\<lparr>state := sortByDistance (state s1)\<rparr>)" by simp
    moreover have "raceTicks (Suc 0) rng net s = Inr s1" using s1 by simp
    ultimately show ?thesis using True by blast
  next
    case False
    with 1(2) s1 have "loop rng net s1 = Some y" by simp
    from 1(1)[OF this] obtain n s' where
      "raceTicks (Suc n) rng net s1 = Inr s'" "list_all finished (state s')"
      "y = Inr (s'\<lparr>state := sortByDistance (state s')\<rparr>)" by blast
    moreover then have "raceTicks (Suc (Suc n)) rng net s = Inr s'" using s1 by simp
    ultimately show ?thesis by blast
  qed
qed

section \<open>Sample runs\<close>

lemmas sample_defs = p0_def p1_def p2_def p4_def p5_def p6_def p7_def s12_def s4_def s4b_def s54_def sLate_def w0_def

lemmas pass_defs = advancePass_def sortPass_def overtakePass_def crashPass_def finishPass_def
  raceTick_def advanceBody_def crashBody_def crashEvent_def finishBody_def overtakeEvent_def mathRandom_def
  tryPost_def postUpdatePrice_def say_def racerSpeedTick_def crashProb_def sortByDistance_def
  applyPercentBigInt_def bigint_div_def
  RACE_DISTANCE_def BASE_DRIFT_def OVERTAKE_BONUS_PCT_def CRASH_PENALTY_PCT_def WINNER_BONUS_PCT_def

lemma tick_s4:
  "raceTick (\<lambda>n. 1 / 2) (\<lambda>n. False) s4 =
     Inr \<lparr>state = [p4\<lparr>distance := 5005, finished := True, currentPriceWei := 1050\<rparr>],
          lastOrder = Some [4], tick = 1,
          io = \<lparr>rnd = 3, posts = 1, log = [Finish 4, WriteFailed 4 1050]\<rparr>\<rparr>"
  by (simp add: sample_defs pass_defs Let_def)

lemma loop_s4:
  "raceLoop (\<lambda>n. 1 / 2) (\<lambda>n. False) s4 =
     Some (Inr \<lparr>state = [p4\<lparr>distance := 5005, finished := True, currentPriceWei := 1050\<rparr>],
          lastOrder = Some [4], tick = 1,
          io = \<lparr>rnd = 3, posts = 1, log = [Finish 4, WriteFailed 4 1050]\<rparr>\<rparr>)"
  by (subst raceLoop.simps) (simp add: tick_s4 sortByDistance_def p4_def)

lemma tick_s12_crashing:
  "raceTick (\<lambda>n. 0) (\<lambda>n. False) s12 =
     Inr \<lparr>state = [p2\<lparr>distance := 0, currentPriceWei := 48\<rparr>,
                   p1\<lparr>distance := 0, currentPriceWei := 800\<rparr>],
          lastOrder = Some [2, 1], tick = 2,
          io = \<lparr>rnd = 6, posts = 3,
                log = [Overtake 2 2 1, WriteFailed 2 60, Crash 2, WriteFailed 2 48,
                       Crash 1, WriteFailed 1 800]\<rparr>\<rparr>"
  by (simp add: sample_defs pass_defs Let_def)

lemma tick_s12:
  "raceTick (\<lambda>n. 1 / 2) (\<lambda>n. False) s12 =
     Inr \<lparr>state = [p2\<lparr>distance := 17, currentPriceWei := 60\<rparr>, p1\<lparr>distance := 13\<rparr>],
          lastOrder = Some [2, 1], tick = 2,
          io = \<lparr>rnd = 6, posts = 1, log = [Overtake 2 2 1, WriteFailed 2 60]\<rparr>\<rparr>"
  by (simp add: sample_defs pass_defs Let_def)

section \<open>Prices stay non-negative\<close>

lemma evolves_nonneg: "evolves xs ys \<Longrightarrow> pricesNonneg xs \<Longrightarrow> pricesNonneg ys"
  unfolding evolves_def pricesNonneg_def list_all_iff drift_def by blast

lemma raceTick_cases:
  obtains s3 where "overtakePass net (sortPass (advancePass rng (s\<lparr>tick := tick s + 1\<rparr>))) = Inr s3"
    and "raceTick rng net s = Inr (finishPass net (crashPass rng net s3))"
    and "list_all2 drift (state (sortPass (advancePass rng (s\<lparr>tick := tick s + 1\<rparr>)))) (state s3)"
proof -
  obtain s3 where s3: "overtakePass net (sortPass (advancePass rng (s\<lparr>tick := tick s + 1\<rparr>))) = Inr s3"
    "list_all2 drift (state (sortPass (advancePass rng (s\<lparr>tick := tick s + 1\<rparr>)))) (state s3)"
    using overtakePass_ok by blast
  then have "raceTick rng net s = Inr (finishPass net (crashPass rng net s3))"
    by (simp add: raceTick_def)
  with s3 that show thesis by blast
qed

text \<open>
  Claim C9. When every price of the state is a non-negative integer, it is so again after
  the overtake pass, after the crash pass, after the finish pass, after any number of
  ticks, and in the state the loop returns.
\<close>

theorem prices_stay_nonneg:
  assumes "pricesNonneg (state s)"
  shows "(overtakePass net s = Inr s1 \<longrightarrow> pricesNonneg (state s1))
       \<and> pricesNonneg (state (crashPass rng net s))
       \<and> pricesNonneg (state (finishPass net s))
       \<and> (raceTicks n rng net s = Inr s2 \<longrightarrow> pricesNonneg (state s2))
       \<and> (raceLoop rng net s = Some (Inr s3) \<longrightarrow> pricesNonneg (state s3))"
proof (intro conjI impI)
  assume "overtakePass net s = Inr s1"
  then have "list_all2 drift (state s) (state s1)" using overtakePass_ok[of net s] by auto
  then show "pricesNonneg (state s1)" using assms all2_drift_evolves evolves_nonneg by blast
next
  show "pricesNonneg (state (crashPass rng net s))"
    using assms all2_drift_evolves[OF crashPass_drift] evolves_nonneg by blast
next
  show "pricesNonneg (state (finishPass net s))"
    using assms all2_drift_evolves[OF finishPass_drift] evolves_nonneg by blast
next
  assume "raceTicks n rng net s = Inr s2"
  then have "evolves (state s) (state s2)" using raceTicks_ok[of n rng net s] by auto
  then show "pricesNonneg (state s2)" using assms evolves_nonneg by blast
next
  assume "raceLoop rng net s = Some (Inr s3)"
  from raceLoop_Some[OF this] obtain k s' where
    k: "raceTicks (Suc k) rng net s = Inr s'" "s3 = s'\<lparr>state := sortByDistance (state s')\<rparr>"
    by blast
  have "evolves (state s) (state s')" using raceTicks_ok[of "Suc k" rng net s] k(1) by auto
  then have "evolves (state s) (state s3)" using k(2) evolves_sort evolves_trans by simp
  then show "pricesNonneg (state s3)" using assms evolves_nonneg by blast
qed



lemma raceTick_rids:
  assumes "raceTick rng net s = Inr s'"
  shows "mset (map rid (state s')) = mset (map rid (state s))"
proof -
  let ?s1 = "advancePass rng (s\<lparr>tick := tick s + 1\<rparr>)"
  obtain s3 where s3: "raceTick rng net s = Inr (finishPass net (crashPass rng net s3))"
    "list_all2 drift (state (sortPass ?s1)) (state s3)"
    by (rule raceTick_cases[of net rng s]) blast
  have "s' = finishPass net (crashPass rng net s3)" using assms s3(1) by simp
  then have "map rid (state s') = map rid (state s3)"
    using all2_drift_rids[OF all2_drift_trans[OF crashPass_drift finishPass_drift], of net rng net s3]
    by simp
  also have "\<dots> = map rid (sortByDistance (state ?s1))"
    using all2_drift_rids[OF s3(2)] by (simp add: sortPass_def)
  finally have "mset (map rid (state s')) = mset (map rid (state ?s1))"
    by (simp add: sortByDistance_def)
  also have "map rid (state ?s1) = map rid (state s)"
    using all2_drift_rids[OF advancePass_drift[of "s\<lparr>tick := tick s + 1\<rparr>" rng]] by simp
  finally show ?thesis .
qed

lemma raceTicks_rids:
  "raceTicks n rng net s = Inr s' \<Longrightarrow> mset (map rid (state s')) = mset (map rid (state s))"
proof (induction n arbitrary: s)
  case 0
  then show ?case by simp
next
  case (Suc n)
  obtain s1 where s1: "raceTick rng net s = Inr s1" using raceTick_ok by blast
  with Suc.prems have "raceTicks n rng net s1 = Inr s'" by simp
  from Suc.IH[OF this] raceTick_rids[OF s1] show ?case by simp
qed

lemma evolves_by_id:
  assumes "evolves xs ys" and "distinct (map rid xs)"
    and "x \<in> set xs" and "y \<in> set ys" and "rid y = rid x"
  shows "drift x y"
proof -
  obtain x' where x': "x' \<in> set xs" "drift x' y" using assms(1,4) unfolding evolves_def by blast
  then have "rid x' = rid x" using assms(5) by (simp add: drift_def)
  moreover have "inj_on rid (set xs)" using assms(2) by (simp add: distinct_map)
  ultimately have "x' = x" using x'(1) assms(3) by (auto dest: inj_onD)
  with x'(2) show ?thesis by simp
qed


lemma ticks1_s4_zero2:
  "raceTicks 1 (drawsWithZeroAt 2) (\<lambda>n. False) s4 =
     Inr \<lparr>state = [p4\<lparr>distance := 4985, currentPriceWei := 800\<rparr>],
          lastOrder = Some [4], tick = 1,
          io = \<lparr>rnd = 3, posts = 1, log = [Crash 4, WriteFailed 4 800]\<rparr>\<rparr>"
  by code_simp

lemma loop_s4_zero2:
  "raceLoop (drawsWithZeroAt 2) (\<lambda>n. False) s4 =
     Some (Inr \<lparr>state = [p4\<lparr>distance := 5005, finished := True, currentPriceWei := 840\<rparr>],
          lastOrder = Some [4], tick = 3,
          io = \<lparr>rnd = 9, posts = 2,
                log = [Crash 4, WriteFailed 4 800, Finish 4, WriteFailed 4 840]\<rparr>\<rparr>)"
  by code_simp

lemma tick_s12_zero4:
  "raceTick (drawsWithZeroAt 4) (\<lambda>n. False) s12 =
     Inr \<lparr>state = [p2\<lparr>distance := 0, currentPriceWei := 48\<rparr>, p1\<lparr>distance := 13\<rparr>],
          lastOrder = Some [2, 1], tick = 2,
          io = \<lparr>rnd = 6, posts = 2,
                log = [Overtake 2 2 1, WriteFailed 2 60, Crash 2, WriteFailed 2 48]\<rparr>\<rparr>"
  by code_simp

lemma crashPass_s12_zero0:
  "crashPass (drawsWithZeroAt 0) (\<lambda>n. False) s12 =
     \<lparr>state = [p1\<lparr>distance := 0, currentPriceWei := 800\<rparr>, p2],
      lastOrder = Some [1, 2], tick = 1,
      io = \<lparr>rnd = 2, posts = 1, log = [Crash 1, WriteFailed 1 800]\<rparr>\<rparr>"
  by code_simp

theorem prices_stay_nonneg_witness:
  "pricesNonneg (state s4)
   \<and> overtakePass (\<lambda>n. False) s4 = Inr (s4\<lparr>lastOrder := Some [4]\<rparr>)
   \<and> pricesNonneg (state (s4\<lparr>lastOrder := Some [4]\<rparr>))
   \<and> pricesNonneg (state (crashPass (drawsWithZeroAt 2) (\<lambda>n. False) s4))
   \<and> raceTicks 1 (drawsWithZeroAt 2) (\<lambda>n. False) s4 =
        Inr \<lparr>state = [p4\<lparr>distance := 4985, currentPriceWei := 800\<rparr>],
          lastOrder = Some [4], tick = 1,
          io = \<lparr>rnd = 3, posts = 1, log = [Crash 4, WriteFailed 4 800]\<rparr>\<rparr>
   \<and> pricesNonneg [p4\<lparr>distance := 4985, currentPriceWei := 800\<rparr>]
   \<and> raceLoop (drawsWithZeroAt 2) (\<lambda>n. False) s4 =
        Some (Inr \<lparr>state = [p4\<lparr>distance := 5005, finished := True, currentPriceWei := 840\<rparr>],
          lastOrder = Some [4], tick = 3,
          io = \<lparr>rnd = 9, posts = 2,
                log = [Crash 4, WriteFailed 4 800, Finish 4, WriteFailed 4 840]\<rparr>\<rparr>)
   \<and> pricesNonneg [p4\<lparr>distance := 5005, finished := True, currentPriceWei := 840\<rparr>]"
  (is ?w)
proof -
  have e: ?w by code_simp
  show ?thesis
    using prices_stay_nonneg[of s4 "\<lambda>n. False" "s4\<lparr>lastOrder := Some [4]\<rparr>" "drawsWithZeroAt 2" 1]
    by - (rule e)
qed

section \<open>Crashes\<close>

lemma raceTick_order:
  assumes "raceTick rng net s = Inr s'"
  shows "map rid (state s') = map rid (sortByDistance (state (advancePass rng (s\<lparr>tick := tick s + 1\<rparr>))))"
proof -
  let ?s1 = "advancePass rng (s\<lparr>tick := tick s + 1\<rparr>)"
  obtain s3 where s3: "raceTick rng net s = Inr (finishPass net (crashPass rng net s3))"
    "list_all2 drift (state (sortPass ?s1)) (state s3)"
    by (rule raceTick_cases[of net rng s]) blast
  have "s' = finishPass net (crashPass rng net s3)" using assms s3(1) by simp
  then have "map rid (state s') = map rid (state s3)"
    using all2_drift_rids[OF all2_drift_trans[OF crashPass_drift finishPass_drift], of net rng net s3]
    by simp
  also have "\<dots> = map rid (sortByDistance (state ?s1))"
    using all2_drift_rids[OF s3(2)] by (simp add: sortPass_def)
  finally show ?thesis .
qed

section \<open>Finished is final\<close>

text \<open>
  Claim C8. A finished participant is passed over by the advance and the crash bodies:
  neither it nor the world changes. Over any number of ticks of a race with distinct
  ids the same ids stay in the array, and the participant with the id of a finished
  one is finished and has the same distance. The sort of a tick keeps every element of
  the array.
\<close>

theorem finished_is_final:
  assumes "distinct (map rid (state s))" and "raceTicks n rng net s = Inr s'"
    and "r \<in> set (state s)" and "finished r"
  shows "advanceBody rng r w = (r, w)
       \<and> crashBody rng net r w = (r, w)
       \<and> mset (map rid (state s')) = mset (map rid (state s))
       \<and> (\<forall>r' \<in> set (state s'). rid r' = rid r \<longrightarrow> finished r' \<and> distance r' = distance r)
       \<and> mset (state (sortPass s)) = mset (state s)"
proof -
  have ev: "evolves (state s) (state s')" using raceTicks_ok[of n rng net s] assms(2) by auto
  have "\<forall>r' \<in> set (state s'). rid r' = rid r \<longrightarrow> finished r' \<and> distance r' = distance r"
  proof (intro ballI impI)
    fix r' assume "r' \<in> set (state s')" "rid r' = rid r"
    from evolves_by_id[OF ev assms(1) assms(3) this] assms(4)
    show "finished r' \<and> distance r' = distance r" by (simp add: drift_def)
  qed
  moreover have "advanceBody rng r w = (r, w)" using assms(4) by (simp add: advanceBody_def)
  moreover have "crashBody rng net r w = (r, w)" using assms(4) by (simp add: crashBody_def crashEvent_def)
  moreover have "mset (state (sortPass s)) = mset (state s)"
    by (simp add: sortPass_def sortByDistance_def)
  ultimately show ?thesis using raceTicks_rids[OF assms(2)] by blast
qed



theorem finished_is_final_witness:
  "distinct (map rid (state s54))
   \<and> raceTicks 2 (\<lambda>n. 1 / 2) (\<lambda>n. False) s54 =
        Inr \<lparr>state = [p4\<lparr>distance := 5005, finished := True, currentPriceWei := 1155\<rparr>, p5],
             lastOrder = Some [4, 5], tick = 9,
             io = \<lparr>rnd = 3, posts = 2,
                   log = [Overtake 4 2 1, WriteFailed 4 1100, Finish 4, WriteFailed 4 1155]\<rparr>\<rparr>
   \<and> p5 \<in> set (state s54) \<and> finished p5
   \<and> advanceBody (\<lambda>n. 1 / 2) p5 w0 = (p5, w0)
   \<and> crashBody (\<lambda>n. 1 / 2) (\<lambda>n. False) p5 w0 = (p5, w0)"
  (is ?w)
proof -
  have e: ?w by code_simp
  show ?thesis
    using finished_is_final[of s54 2 "\<lambda>n. 1 / 2" "\<lambda>n. False" _ p5 w0]
    by - (rule e)
qed

section \<open>The transport does not steer the race\<close>

lemma forEach_same:
  assumes "\<And>r w w'. rnd w = rnd w' \<Longrightarrow>
             fst (b r w) = fst (b' r w') \<and> rnd (snd (b r w)) = rnd (snd (b' r w'))"
    and "rnd w = rnd w'"
  shows "fst (forEach b rs w) = fst (forEach b' rs w')
       \<and> rnd (snd (forEach b rs w)) = rnd (snd (forEach b' rs w'))"
  using assms(2)
proof (induction rs arbitrary: w w')
  case Nil
  then show ?case by simp
next
  case (Cons r rs)
  obtain r1 w1 where b: "b r w = (r1, w1)" by (cases "b r w")
  obtain r2 w2 where b': "b' r w' = (r2, w2)" by (cases "b' r w'")
  have h: "r1 = r2" "rnd w1 = rnd w2" using assms(1)[OF Cons.prems, of r] b b' by simp_all
  obtain rs1 w1' where f: "forEach b rs w1 = (rs1, w1')" by (cases "forEach b rs w1")
  obtain rs2 w2' where f': "forEach b' rs w2 = (rs2, w2')" by (cases "forEach b' rs w2")
  from Cons.IH[OF h(2)] f f' have "rs1 = rs2" "rnd w1' = rnd w2'" by simp_all
  with h b b' f f' show ?case by simp
qed

lemma advanceBody_same:
  "rnd w = rnd w' \<Longrightarrow>
     fst (advanceBody rng r w) = fst (advanceBody rng r w')
     \<and> rnd (snd (advanceBody rng r w)) = rnd (snd (advanceBody rng r w'))"
  by (simp add: advanceBody_def mathRandom_def Let_def)

lemma crashBody_same:
  "rnd w = rnd w' \<Longrightarrow>
     fst (crashBody rng net r w) = fst (crashBody rng net' r w')
     \<and> rnd (snd (crashBody rng net r w)) = rnd (snd (crashBody rng net' r w'))"
  by (simp add: crashBody_def crashEvent_def mathRandom_def Let_def tryPost_rnd say_def)

lemma finishBody_same:
  "rnd w = rnd w' \<Longrightarrow>
     fst (finishBody net r w) = fst (finishBody net' r w')
     \<and> rnd (snd (finishBody net r w)) = rnd (snd (finishBody net' r w'))"
  by (simp add: finishBody_def Let_def tryPost_rnd say_def)

lemma overtakeEvent_rnd: "rnd (snd (overtakeEvent net c old new k st w)) = rnd w"
  by (simp add: overtakeEvent_def Let_def tryPost_rnd say_def)

lemma overtakeLoop_same:
  assumes "rnd w = rnd w'" and "overtakeLoop net prev rest i st w = Inr (st1, w1)"
  shows "\<exists>w2. overtakeLoop net' prev rest i st w' = Inr (st1, w2) \<and> rnd w1 = rnd w2"
  using assms
proof (induction rest arbitrary: i st w w')
  case Nil
  then show ?case by simp
next
  case (Cons c rest)
  show ?case
  proof (cases "indexOf prev c > int i")
    case False
    with Cons.prems(2) have "overtakeLoop net prev rest (i + 1) st w = Inr (st1, w1)" by simp
    from Cons.IH[OF Cons.prems(1) this] False show ?thesis by simp
  next
    case True
    with Cons.prems(2) obtain k where k: "findRef (\<lambda>x. rid x = c) st = Some k"
      by (cases "findRef (\<lambda>x. rid x = c) st") simp_all
    let ?ev = "overtakeEvent net c (nat (indexOf prev c + 1)) (i + 1) k st w"
    let ?ev' = "overtakeEvent net' c (nat (indexOf prev c + 1)) (i + 1) k st w'"
    have r: "overtakeLoop net prev rest (i + 1) (fst ?ev) (snd ?ev) = Inr (st1, w1)"
      using Cons.prems(2) True k by (simp add: split_beta Let_def)
    have "rnd (snd ?ev) = rnd (snd ?ev')" using Cons.prems(1) by (simp add: overtakeEvent_rnd)
    from Cons.IH[OF this r] obtain w2 where
      "overtakeLoop net' prev rest (i + 1) (fst ?ev) (snd ?ev') = Inr (st1, w2)" "rnd w1 = rnd w2"
      by blast
    moreover have "fst ?ev = fst ?ev'" by (simp add: overtakeEvent_fst)
    ultimately show ?thesis using True k by (simp add: split_beta Let_def)
  qed
qed

lemma sameRace_refl: "sameRace s s"
  by (simp add: sameRace_def)

lemma sameRace_sym: "sameRace s t \<Longrightarrow> sameRace t s"
  by (simp add: sameRace_def)

lemma advancePass_same: "sameRace s t \<Longrightarrow> sameRace (advancePass rng s) (advancePass rng t)"
  using forEach_same[of "advanceBody rng" "advanceBody rng" "io s" "io t" "state s", OF advanceBody_same]
  by (simp add: sameRace_def advancePass_state advancePass_io advancePass_other)

lemma crashPass_same: "sameRace s t \<Longrightarrow> sameRace (crashPass rng net s) (crashPass rng net' t)"
  using forEach_same[of "crashBody rng net" "crashBody rng net'" "io s" "io t" "state s", OF crashBody_same]
  by (simp add: sameRace_def crashPass_state crashPass_io crashPass_other)

lemma finishPass_same: "sameRace s t \<Longrightarrow> sameRace (finishPass net s) (finishPass net' t)"
  using forEach_same[of "finishBody net" "finishBody net'" "io s" "io t" "state s", OF finishBody_same]
  by (simp add: sameRace_def finishPass_state finishPass_io finishPass_other)

lemma sortPass_same: "sameRace s t \<Longrightarrow> sameRace (sortPass s) (sortPass t)"
  by (simp add: sameRace_def sortPass_def)

lemma overtakePass_same:
  assumes "sameRace s t" and "overtakePass net s = Inr s'"
  shows "\<exists>t'. overtakePass net' t = Inr t' \<and> sameRace s' t'"
proof (cases "lastOrder s")
  case None
  with assms show ?thesis by (auto simp: overtakePass_def sameRace_def)
next
  case (Some prevOrder)
  with assms(2) obtain st1 w1 where
    l: "overtakeLoop net prevOrder (map rid (state s)) 0 (state s) (io s) = Inr (st1, w1)"
    and s': "s' = s\<lparr>state := st1, io := w1, lastOrder := Some (map rid (state s))\<rparr>"
    by (auto simp: overtakePass_def Let_def split: sum.splits)
  have "rnd (io s) = rnd (io t)" using assms(1) by (simp add: sameRace_def)
  from overtakeLoop_same[OF this l, of net'] obtain w2 where
    "overtakeLoop net' prevOrder (map rid (state s)) 0 (state s) (io t) = Inr (st1, w2)"
    "rnd w1 = rnd w2" by blast
  moreover have "lastOrder t = Some prevOrder" "state t = state s" "tick t = tick s"
    using Some assms(1) by (simp_all add: sameRace_def)
  ultimately show ?thesis using s' by (simp add: overtakePass_def sameRace_def Let_def)
qed

lemma raceTick_same:
  assumes "sameRace s t" and "raceTick rng net s = Inr s'"
  shows "\<exists>t'. raceTick rng net' t = Inr t' \<and> sameRace s' t'"
proof -
  let ?s2 = "sortPass (advancePass rng (s\<lparr>tick := tick s + 1\<rparr>))"
  let ?t2 = "sortPass (advancePass rng (t\<lparr>tick := tick t + 1\<rparr>))"
  have "sameRace (s\<lparr>tick := tick s + 1\<rparr>) (t\<lparr>tick := tick t + 1\<rparr>)"
    using assms(1) by (simp add: sameRace_def)
  then have 2: "sameRace ?s2 ?t2" by (intro sortPass_same advancePass_same)
  obtain s3 where s3: "overtakePass net ?s2 = Inr s3" using overtakePass_ok by blast
  from overtakePass_same[OF 2 s3, of net'] obtain t3 where
    t3: "overtakePass net' ?t2 = Inr t3" "sameRace s3 t3" by blast
  have "sameRace (finishPass net (crashPass rng net s3)) (finishPass net' (crashPass rng net' t3))"
    using t3(2) by (intro finishPass_same crashPass_same)
  with assms(2) s3 t3(1) show ?thesis by (simp add: raceTick_def)
qed

lemma raceLoop_same_Some:
  "raceLoop rng net s = Some y \<Longrightarrow>
     \<forall>t. sameRace s t \<longrightarrow>
       (\<exists>s' t'. y = Inr s' \<and> raceLoop rng net' t = Some (Inr t') \<and> sameRace s' t')"
proof (induction rule: raceLoop.raw_induct[rotated 1, consumes 1])
  case (1 loop rng net s y)
  show ?case
  proof (intro allI impI)
    fix t assume st: "sameRace s t"
    obtain s1 where s1: "raceTick rng net s = Inr s1" using raceTick_ok by blast
    from raceTick_same[OF st s1, of net'] obtain t1 where
      t1: "raceTick rng net' t = Inr t1" "sameRace s1 t1" by blast
    have eq: "state s1 = state t1" using t1(2) by (simp add: sameRace_def)
    show "\<exists>s' t'. y = Inr s' \<and> raceLoop rng net' t = Some (Inr t') \<and> sameRace s' t'"
    proof (cases "list_all finished (state s1)")
      case True
      with 1(2) s1 have y: "y = Inr (s1\<lparr>state := sortByDistance (state s1)\<rparr>)" by simp
      have "raceLoop rng net' t = Some (Inr (t1\<lparr>state := sortByDistance (state t1)\<rparr>))"
        using True eq t1(1) by (subst raceLoop.simps) simp
      moreover have "sameRace (s1\<lparr>state := sortByDistance (state s1)\<rparr>)
                       (t1\<lparr>state := sortByDistance (state t1)\<rparr>)"
        using t1(2) by (simp add: sameRace_def)
      ultimately show ?thesis using y by blast
    next
      case False
      with 1(2) s1 have "loop rng net s1 = Some y" by simp
      from 1(1)[OF this] t1(2) obtain s' t' where
        r: "y = Inr s'" "raceLoop rng net' t1 = Some (Inr t')" "sameRace s' t'" by blast
      have "raceLoop rng net' t = raceLoop rng net' t1"
        using False eq t1(1) by (subst raceLoop.simps) simp
      with r show ?thesis by simp
    qed
  qed
qed

lemma raceLoop_same:
  "rel_option (rel_sum (=) sameRace) (raceLoop rng net s) (raceLoop rng net' s)"
proof (cases "raceLoop rng net s")
  case None
  have "raceLoop rng net' s = None"
  proof (rule ccontr)
    assume "raceLoop rng net' s \<noteq> None"
    then obtain y where "raceLoop rng net' s = Some y" by auto
    from raceLoop_same_Some[OF this, of net] sameRace_refl[of s] None show False by auto
  qed
  with None show ?thesis by simp
next
  case (Some y)
  from raceLoop_same_Some[OF this, of net'] sameRace_refl[of s] Some show ?thesis by auto
qed

lemma raceLoop_no_error: "raceLoop rng net s \<noteq> Some (Inl e)"
  using raceLoop_Some[of rng net s "Inl e"] by auto

lemma loop_s4_zero2_ok:
  "raceLoop (drawsWithZeroAt 2) (\<lambda>n. True) s4 =
     Some (Inr \<lparr>state = [p4\<lparr>distance := 5005, finished := True, currentPriceWei := 840\<rparr>],
          lastOrder = Some [4], tick = 3,
          io = \<lparr>rnd = 9, posts = 2,
                log = [Crash 4, WriteOk 4 800, Finish 4, WriteOk 4 840]\<rparr>\<rparr>)"
  by code_simp

section \<open>Leaving the loop\<close>

lemma priceOnly_refl: "priceOnly r r"
  by (simp add: priceOnly_def)

lemma priceOnly_trans: "priceOnly a b \<Longrightarrow> priceOnly b c \<Longrightarrow> priceOnly a c"
  by (simp add: priceOnly_def)

lemma overtakeEvent_priceOnly: "list_all2 priceOnly st (fst (overtakeEvent net c old new k st w))"
proof (cases "k < length st")
  case True
  then show ?thesis unfolding overtakeEvent_fst
    by (auto simp: list_all2_conv_all_nth nth_list_update priceOnly_def)
next
  case False
  then show ?thesis unfolding overtakeEvent_fst
    by (simp add: not_less list_update_beyond list_all2_refl priceOnly_refl)
qed

lemma overtakeLoop_priceOnly:
  "overtakeLoop net prev rest i st w = Inr (st', w') \<Longrightarrow> list_all2 priceOnly st st'"
proof (induction rest arbitrary: i st w)
  case Nil
  then show ?case by (simp add: list_all2_refl priceOnly_refl)
next
  case (Cons c rest)
  show ?case
  proof (cases "indexOf prev c > int i")
    case False
    with Cons.prems have "overtakeLoop net prev rest (i + 1) st w = Inr (st', w')" by simp
    from Cons.IH[OF this] show ?thesis .
  next
    case True
    with Cons.prems obtain k where k: "findRef (\<lambda>x. rid x = c) st = Some k"
      by (cases "findRef (\<lambda>x. rid x = c) st") simp_all
    let ?ev = "overtakeEvent net c (nat (indexOf prev c + 1)) (i + 1) k st w"
    have "overtakeLoop net prev rest (i + 1) (fst ?ev) (snd ?ev) = Inr (st', w')"
      using Cons.prems True k by (simp add: split_beta Let_def)
    from Cons.IH[OF this] have "list_all2 priceOnly (fst ?ev) st'" .
    with overtakeEvent_priceOnly[of st net c "nat (indexOf prev c + 1)" "i + 1" k w]
    show ?thesis
      by (rule list_all2_trans[where ?P1.0 = priceOnly and ?P2.0 = priceOnly, rotated 1])
         (blast intro: priceOnly_trans)
  qed
qed

lemma overtakePass_priceOnly:
  "overtakePass net s = Inr s' \<Longrightarrow> list_all2 priceOnly (state s) (state s')"
  by (cases "lastOrder s")
     (auto simp: overtakePass_def Let_def list_all2_refl priceOnly_refl
           split: sum.splits dest: overtakeLoop_priceOnly)

lemma raceLoop_step:
  "raceTick rng net s = Inr s1 \<Longrightarrow> \<not> list_all finished (state s1) \<Longrightarrow>
     raceLoop rng net s = raceLoop rng net s1"
  by (subst raceLoop.simps) simp

lemma raceLoop_exit:
  "raceTick rng net s = Inr s1 \<Longrightarrow> list_all finished (state s1) \<Longrightarrow>
     raceLoop rng net s = Some (Inr (s1\<lparr>state := sortByDistance (state s1)\<rparr>))"
  by (subst raceLoop.simps) simp

lemma stuck_tick:
  assumes "stuckAtStart s"
  shows "\<exists>s1. raceTick (\<lambda>n. 0) net s = Inr s1 \<and> stuckAtStart s1"
proof -
  from assms obtain r where r: "state s = [r]" "\<not> finished r" "distance r = 0" "speedStat r = 10"
    "aggression r = 0" "consistency r = 200" unfolding stuckAtStart_def by blast
  let ?s2 = "sortPass (advancePass (\<lambda>n. 0) (s\<lparr>tick := tick s + 1\<rparr>))"
  have s2: "state ?s2 = [r\<lparr>distance := 10\<rparr>]"
    using r by (simp add: sortPass_def sortByDistance_def advancePass_state advanceBody_def
          mathRandom_def racerSpeedTick_def BASE_DRIFT_def)
  obtain s3 where s3: "overtakePass net ?s2 = Inr s3" using overtakePass_ok by blast
  from overtakePass_priceOnly[OF s3] s2 obtain r3 where
    r3: "state s3 = [r3]" "priceOnly (r\<lparr>distance := 10\<rparr>) r3"
    by (auto simp: list_all2_Cons1)
  have p3: "\<not> finished r3" "distance r3 = 10" "speedStat r3 = 10" "aggression r3 = 0"
    "consistency r3 = 200"
    using r r3(2) by (simp_all add: priceOnly_def)
  let ?s5 = "finishPass net (crashPass (\<lambda>n. 0) net s3)"
  have "\<exists>r5. state ?s5 = [r5] \<and> \<not> finished r5 \<and> distance r5 = 0 \<and> speedStat r5 = 10
          \<and> aggression r5 = 0 \<and> consistency r5 = 200"
    using r3(1) p3
    by (simp add: finishPass_state crashPass_state crashPass_io crashBody_def crashEvent_def finishBody_def
          mathRandom_def crashProb_def Let_def RACE_DISTANCE_def split_beta)
  then have "stuckAtStart ?s5" by (simp add: stuckAtStart_def)
  moreover have "raceTick (\<lambda>n. 0) net s = Inr ?s5" using s3 by (simp add: raceTick_def)
  ultimately show ?thesis by blast
qed

lemma stuck_forever_aux:
  "raceLoop rng net s = Some y \<Longrightarrow> rng = (\<lambda>n. 0) \<longrightarrow> \<not> stuckAtStart s"
proof (induction rule: raceLoop.raw_induct[rotated 1, consumes 1])
  case (1 loop rng net s y)
  show ?case
  proof (intro impI notI)
    assume rng: "rng = (\<lambda>n. 0)" and st: "stuckAtStart s"
    from stuck_tick[OF st, of net] obtain s1 where
      s1: "raceTick (\<lambda>n. 0) net s = Inr s1" "stuckAtStart s1" by blast
    have "\<not> list_all finished (state s1)" using s1(2) by (auto simp: stuckAtStart_def)
    with 1(2) s1(1) rng have "loop rng net s1 = Some y" by simp
    from 1(1)[OF this] rng s1(2) show False by simp
  qed
qed

lemma stuck_forever: "stuckAtStart s \<Longrightarrow> raceLoop (\<lambda>n. 0) net s = None"
  using stuck_forever_aux[of "\<lambda>n. 0" net s] by (cases "raceLoop (\<lambda>n. 0) net s") auto

lemma forEach_all:
  assumes "\<And>r w. P r \<Longrightarrow> Q (fst (body r w))" and "list_all P rs"
  shows "list_all Q (fst (forEach body rs w))"
  using assms(2)
proof (induction rs arbitrary: w)
  case Nil
  show ?case by simp
next
  case (Cons r rs)
  obtain r' w' where b: "body r w = (r', w')" by (cases "body r w")
  obtain rs' w'' where f: "forEach body rs w' = (rs', w'')" by (cases "forEach body rs w'")
  have "Q r'" using assms(1)[of r w] Cons.prems b by simp
  moreover have "list_all Q rs'" using Cons.IH[of w'] Cons.prems f by simp
  ultimately show ?case using b f by simp
qed

lemma product_lower:
  fixes A B :: rat
  assumes "0 \<le> A" "A \<le> 5 / 2" "- (11 / 40) \<le> B"
  shows "- (11 / 16) \<le> A * B"
proof (cases "0 \<le> B")
  case True
  then have "0 \<le> A * B" using assms(1) by simp
  then show ?thesis by linarith
next
  case False
  then have nb: "0 \<le> - B" "- B \<le> 11 / 40" using assms(3) by linarith+
  have "A * (- B) \<le> (5 / 2) * (11 / 40)"
    using assms(1,2) nb by (intro mult_mono) simp_all
  also have "(5 / 2) * (11 / 40) = (11 / 16 :: rat)" by simp
  finally have "- (A * B) \<le> 11 / 16" by simp
  then show ?thesis by linarith
qed

lemma noise_lower:
  fixes u c :: rat
  assumes "1 / 2 \<le> u" "u < 1" "1 \<le> c" "c \<le> 255"
  shows "- (11 / 16) \<le> (u * 5 * (1 - c / 200)) - (5 / 2) * (1 - c / 200)"
proof -
  define A where "A = u * 5 - 5 / 2"
  define B where "B = 1 - c / 200"
  have A: "0 \<le> A" "A \<le> 5 / 2" using assms by (simp_all add: A_def)
  have B: "- (11 / 40) \<le> B" using assms by (simp add: B_def)
  have "(u * 5 * B) - (5 / 2) * B = A * B" by (simp add: A_def algebra_simps)
  with product_lower[OF A B] show ?thesis unfolding B_def by simp
qed

lemma speed_lower:
  assumes "1 \<le> s" "c \<le> 255" "1 / 2 \<le> u1" "u1 < 1"
  shows "5 / 16 \<le> racerSpeedTick s a c u1 u2"
proof -
  define cf where "cf = (of_nat (if c = 0 then 100 else c) :: rat)"
  define N where "N = (u1 * 5 * (1 - cf / 200)) - (5 / 2) * (1 - cf / 200)"
  define Bu where "Bu = (if u2 < of_nat a / 500 then of_nat a / 20 else (0::rat))"
  have c: "1 \<le> cf" "cf \<le> 255" using assms(2) by (auto simp: cf_def)
  have n: "- (11 / 16) \<le> N" unfolding N_def by (rule noise_lower[OF assms(3,4) c])
  have s: "(1::rat) \<le> of_nat s" using assms(1) by simp
  have b: "0 \<le> Bu" by (simp add: Bu_def)
  have "racerSpeedTick s a c u1 u2 = max 0 (of_nat s + Bu + N)"
    unfolding racerSpeedTick_def Let_def BASE_DRIFT_def N_def Bu_def cf_def by (rule refl)
  also have "5 / 16 \<le> of_nat s + Bu + N" using n s b by linarith
  then have "5 / 16 \<le> max 0 (of_nat s + Bu + N)" by (simp add: max_def)
  finally show ?thesis .
qed

lemma crashProb_small:
  assumes "aggression r \<le> 255"
  shows "crashProb r < 1 / 2"
proof -
  define a where "a = (of_nat (aggression r) / 255 :: rat)"
  define c where "c = (1 - of_nat (consistency r) / 255 :: rat)"
  have a: "0 \<le> a" "a \<le> 1" using assms by (simp_all add: a_def)
  have c: "c \<le> 1" by (simp add: c_def)
  have "c * a \<le> 1 * a" using c a(1) by (rule mult_right_mono)
  then have ca: "c * a \<le> 1" using a(2) by linarith
  have "crashProb r = 2 / 1000 + (1 / 100 * a) + (1 / 100 * c * a)"
    unfolding crashProb_def Let_def a_def c_def by (rule refl)
  also have "\<dots> = 2 / 1000 + (1 / 100) * a + (1 / 100) * (c * a)" by simp
  also have "\<dots> < 1 / 2" using a ca by linarith
  finally show ?thesis .
qed


lemma steps_pred:
  "RACE_DISTANCE - of_nat k * (5 / 16) \<le> d \<Longrightarrow>
     RACE_DISTANCE - of_nat (k - 1) * (5 / 16) \<le> d + (5 / 16 :: rat)"
proof -
  assume h: "RACE_DISTANCE - of_nat k * (5 / 16) \<le> d"
  have "(of_nat k :: rat) - 1 \<le> of_nat (k - 1)" by (cases k) simp_all
  then have "(of_nat k - 1) * (5 / 16) \<le> (of_nat (k - 1) :: rat) * (5 / 16)"
    by (rule mult_right_mono) simp
  then have "of_nat k * (5 / 16) - 5 / 16 \<le> (of_nat (k - 1) :: rat) * (5 / 16)"
    by (simp add: algebra_simps)
  with h show ?thesis by linarith
qed

lemma advanceBody_within:
  assumes "upperDraws rng" and "withinSteps k r"
  shows "withinSteps (k - 1) (fst (advanceBody rng r w))"
proof (cases "finished r")
  case True
  with assms(2) show ?thesis by (simp add: advanceBody_def withinSteps_def statsOk_def)
next
  case False
  let ?v = "racerSpeedTick (speedStat r) (aggression r) (consistency r) (rng (rnd w)) (rng (rnd w + 1))"
  have ok: "statsOk r" and d: "RACE_DISTANCE - of_nat k * (5 / 16) \<le> distance r"
    using assms(2) False by (simp_all add: withinSteps_def)
  have u: "1 / 2 \<le> rng (rnd w)" "rng (rnd w) < 1" using assms(1) by (simp_all add: upperDraws_def)
  have "5 / 16 \<le> ?v" using ok u by (intro speed_lower) (simp_all add: statsOk_def)
  with steps_pred[OF d] have "RACE_DISTANCE - of_nat (k - 1) * (5 / 16) \<le> distance r + ?v"
    by linarith
  moreover have "fst (advanceBody rng r w) = r\<lparr>distance := distance r + ?v\<rparr>"
    using False by (simp add: advanceBody_def mathRandom_def)
  ultimately show ?thesis using ok by (simp add: withinSteps_def statsOk_def)
qed

lemma crashBody_no_crash:
  assumes "upperDraws rng" and "statsOk r"
  shows "fst (crashBody rng net r w) = r"
proof -
  have "crashProb r < 1 / 2" using assms(2) by (intro crashProb_small) (simp add: statsOk_def)
  moreover have "1 / 2 \<le> rng (rnd w)" using assms(1) by (simp add: upperDraws_def)
  ultimately have "\<not> rng (rnd w) < crashProb r" by linarith
  then show ?thesis by (simp add: crashBody_def crashEvent_def mathRandom_def)
qed

lemma finishBody_within:
  assumes "withinSteps k r"
  shows "withinSteps k (fst (finishBody net r w))
       \<and> (finished (fst (finishBody net r w)) \<or> distance (fst (finishBody net r w)) < RACE_DISTANCE)"
  using assms by (auto simp: finishBody_def withinSteps_def statsOk_def Let_def)

lemma priceOnly_within: "priceOnly r r' \<Longrightarrow> withinSteps k r \<Longrightarrow> withinSteps k r'"
  by (simp add: priceOnly_def withinSteps_def statsOk_def)

lemma all2_priceOnly_within:
  "list_all2 priceOnly xs ys \<Longrightarrow> list_all (withinSteps k) xs \<Longrightarrow> list_all (withinSteps k) ys"
  by (induction rule: list_all2_induct) (auto intro: priceOnly_within)

lemma tick_within:
  assumes "upperDraws rng" and "list_all (withinSteps k) (state s)"
    and "raceTick rng net s = Inr s1"
  shows "list_all (\<lambda>r. withinSteps (k - 1) r \<and> (finished r \<or> distance r < RACE_DISTANCE)) (state s1)"
proof -
  let ?s1 = "advancePass rng (s\<lparr>tick := tick s + 1\<rparr>)"
  have 1: "list_all (withinSteps (k - 1)) (state ?s1)"
    unfolding advancePass_state
    using assms(2) by (intro forEach_all[where P = "withinSteps k"] advanceBody_within[OF assms(1)]) simp_all
  then have 2: "list_all (withinSteps (k - 1)) (state (sortPass ?s1))"
    by (simp add: sortPass_def sortByDistance_def list_all_iff)
  obtain s3 where s3: "overtakePass net (sortPass ?s1) = Inr s3"
    and t: "raceTick rng net s = Inr (finishPass net (crashPass rng net s3))"
    by (rule raceTick_cases[of net rng s]) blast
  have 3: "list_all (withinSteps (k - 1)) (state s3)"
    using all2_priceOnly_within[OF overtakePass_priceOnly[OF s3] 2] .
  have 4: "list_all (withinSteps (k - 1)) (state (crashPass rng net s3))"
    unfolding crashPass_state
  proof (rule forEach_all[where P = "withinSteps (k - 1)"])
    fix r w assume "withinSteps (k - 1) r"
    moreover then have "statsOk r" by (simp add: withinSteps_def)
    ultimately show "withinSteps (k - 1) (fst (crashBody rng net r w))"
      using crashBody_no_crash[OF assms(1)] by simp
  qed (rule 3)
  have "list_all (\<lambda>r. withinSteps (k - 1) r \<and> (finished r \<or> distance r < RACE_DISTANCE))
          (state (finishPass net (crashPass rng net s3)))"
    unfolding finishPass_state
    by (rule forEach_all[where P = "withinSteps (k - 1)"]) (use finishBody_within 4 in blast)+
  with t assms(3) show ?thesis by simp
qed

lemma terminates_within:
  assumes "upperDraws rng"
  shows "list_all (withinSteps k) (state s) \<Longrightarrow>
           \<exists>s'. raceLoop rng net s = Some (Inr s')"
proof (induction k arbitrary: s)
  case 0
  obtain s1 where s1: "raceTick rng net s = Inr s1" using raceTick_ok by blast
  from tick_within[OF assms 0 s1]
  have "list_all finished (state s1)"
    by (auto simp: list_all_iff withinSteps_def)
  from raceLoop_exit[OF s1 this] show ?case by blast
next
  case (Suc k)
  obtain s1 where s1: "raceTick rng net s = Inr s1" using raceTick_ok by blast
  from tick_within[OF assms Suc.prems s1]
  have w: "list_all (withinSteps k) (state s1)" by (simp add: list_all_iff)
  show ?case
  proof (cases "list_all finished (state s1)")
    case True
    from raceLoop_exit[OF s1 this] show ?thesis by blast
  next
    case False
    from raceLoop_step[OF s1 this] Suc.IH[OF w] show ?thesis by simp
  qed
qed

lemma steps_exist:
  "list_all statsOk xs \<Longrightarrow> \<exists>k. list_all (withinSteps k) xs"
proof (induction xs)
  case Nil
  show ?case by simp
next
  case (Cons x xs)
  then obtain k where k: "list_all (withinSteps k) xs" by auto
  obtain m where m: "(RACE_DISTANCE - distance x) * (16 / 5) \<le> of_nat m"
    using real_arch_simple by blast
  have mono: "\<And>i j r. i \<le> j \<Longrightarrow> withinSteps i r \<Longrightarrow> withinSteps j r"
  proof -
    fix i j :: nat and r assume "i \<le> j" "withinSteps i r"
    moreover from \<open>i \<le> j\<close> have "(of_nat i :: rat) * (5 / 16) \<le> of_nat j * (5 / 16)" by simp
    ultimately show "withinSteps j r" unfolding withinSteps_def by linarith
  qed
  have "RACE_DISTANCE - of_nat m * (5 / 16) \<le> distance x"
    using m by (simp add: field_simps)
  then have "withinSteps m x" using Cons.prems by (simp add: withinSteps_def)
  then have "withinSteps (max k m) x" by (rule mono[rotated]) simp
  moreover have "list_all (withinSteps (max k m)) xs"
    using k mono[of k "max k m"] by (simp add: list_all_iff)
  ultimately show ?case by auto
qed

lemma raceLoop_all_finished:
  "raceLoop rng net s = Some y \<Longrightarrow> \<exists>s'. y = Inr s' \<and> list_all finished (state s')"
  using raceLoop_Some[of rng net s y] by (auto simp: sortByDistance_def list_all_iff)






section \<open>The finish pass\<close>

lemma floor_twentieth: "\<lfloor>(of_int p :: rat) / 20\<rfloor> = p div 20"
  using floor_divide_of_int_eq[of p 20, where ?'a = rat] by simp

lemma finishBody_spec:
  "0 \<le> currentPriceWei r \<Longrightarrow> fst (finishBody net r w) = spec_finish r"
  by (simp add: finishBody_def spec_finish_def Let_def pct_finish floor_twentieth)

lemma finishBody_log:
  "log (snd (finishBody net r w)) =
     log w @ (if \<not> finished r \<and> RACE_DISTANCE \<le> distance r
              then [Finish (rid r),
                    if net (posts w)
                    then WriteOk (rid r) (applyPercentBigInt (currentPriceWei r) WINNER_BONUS_PCT True)
                    else WriteFailed (rid r) (applyPercentBigInt (currentPriceWei r) WINNER_BONUS_PCT True)]
              else [])"
  by (simp add: finishBody_def Let_def tryPost_log say_def)

lemma forEach_map:
  assumes "\<And>r w. r \<in> set rs \<Longrightarrow> fst (body r w) = g r"
  shows "fst (forEach body rs w) = map g rs"
  using assms
proof (induction rs arbitrary: w)
  case Nil
  show ?case by simp
next
  case (Cons r rs)
  obtain r' w' where b: "body r w = (r', w')" by (cases "body r w")
  obtain rs' w'' where f: "forEach body rs w' = (rs', w'')" by (cases "forEach body rs w'")
  have "r' = g r" using Cons.prems[of r w] b by simp
  moreover have "rs' = map g rs" using Cons.IH[of w'] Cons.prems f by simp
  ultimately show ?case using b f by simp
qed

lemma finishPass_spec:
  assumes "pricesNonneg (state s)"
  shows "state (finishPass net s) = map spec_finish (state s)"
  unfolding finishPass_state
proof (rule forEach_map)
  fix r w assume "r \<in> set (state s)"
  then have "0 \<le> currentPriceWei r" using assms by (simp add: pricesNonneg_def list_all_iff)
  then show "fst (finishBody net r w) = spec_finish r" by (rule finishBody_spec)
qed

subsection \<open>Finish lines\<close>

lemma finishLines_say:
  "finishLines i (say e w) = finishLines i w + (if e = Finish i then 1 else 0)"
  by (simp add: finishLines_def say_def)

lemma finishLines_tryPost: "finishLines i (tryPost net j p w) = finishLines i w"
  by (simp add: finishLines_def tryPost_log)

lemma advanceBody_lines: "finishLines i (snd (advanceBody rng r w)) = finishLines i w"
  by (simp add: advanceBody_def mathRandom_def finishLines_def Let_def)

lemma crashBody_lines: "finishLines i (snd (crashBody rng net r w)) = finishLines i w"
  by (simp add: crashBody_def crashEvent_def mathRandom_def Let_def finishLines_tryPost finishLines_say)
     (simp add: finishLines_def)

lemma overtakeEvent_lines:
  "finishLines i (snd (overtakeEvent net c old new k st w)) = finishLines i w"
  by (simp add: overtakeEvent_def Let_def finishLines_tryPost finishLines_say)

lemma finishBody_lines:
  "finishLines i (snd (finishBody net r w)) =
     finishLines i w + (if \<not> finished r \<and> RACE_DISTANCE \<le> distance r \<and> rid r = i then 1 else 0)"
  by (simp add: finishLines_def finishBody_log)

lemma forEach_lines_same:
  assumes "\<And>r w. finishLines i (snd (body r w)) = finishLines i w"
  shows "finishLines i (snd (forEach body rs w)) = finishLines i w"
  using forEach_world[of "\<lambda>v. finishLines i v = finishLines i w" body w rs] assms by simp

lemma overtakeLoop_lines:
  "overtakeLoop net prev rest k st w = Inr (st', w') \<Longrightarrow> finishLines i w' = finishLines i w"
proof (induction rest arbitrary: k st w)
  case Nil
  then show ?case by simp
next
  case (Cons c rest)
  show ?case
  proof (cases "indexOf prev c > int k")
    case False
    with Cons.prems have "overtakeLoop net prev rest (k + 1) st w = Inr (st', w')" by simp
    from Cons.IH[OF this] show ?thesis .
  next
    case True
    with Cons.prems obtain j where j: "findRef (\<lambda>x. rid x = c) st = Some j"
      by (cases "findRef (\<lambda>x. rid x = c) st") simp_all
    let ?ev = "overtakeEvent net c (nat (indexOf prev c + 1)) (k + 1) j st w"
    have "overtakeLoop net prev rest (k + 1) (fst ?ev) (snd ?ev) = Inr (st', w')"
      using Cons.prems True j by (simp add: split_beta Let_def)
    from Cons.IH[OF this] show ?thesis by (simp add: overtakeEvent_lines)
  qed
qed

lemma overtakePass_lines:
  "overtakePass net s = Inr s' \<Longrightarrow> finishLines i (io s') = finishLines i (io s)"
  by (cases "lastOrder s")
     (auto simp: overtakePass_def Let_def split: sum.splits dest: overtakeLoop_lines)

lemma finishPass_lines:
  "finishLines i (io (finishPass net s)) =
     finishLines i (io s)
       + length (filter (\<lambda>r. \<not> finished r \<and> RACE_DISTANCE \<le> distance r \<and> rid r = i) (state s))"
proof -
  have "\<And>w. finishLines i (snd (forEach (finishBody net) rs w)) =
     finishLines i w
       + length (filter (\<lambda>r. \<not> finished r \<and> RACE_DISTANCE \<le> distance r \<and> rid r = i) rs)" for rs
  proof (induction rs)
    case Nil
    show ?case by simp
  next
    case (Cons r rs)
    obtain r' w' where b: "finishBody net r w = (r', w')" by (cases "finishBody net r w")
    obtain rs' w'' where f: "forEach (finishBody net) rs w' = (rs', w'')"
      by (cases "forEach (finishBody net) rs w'")
    have "finishLines i w' = finishLines i w
            + (if \<not> finished r \<and> RACE_DISTANCE \<le> distance r \<and> rid r = i then 1 else 0)"
      using finishBody_lines[of i net r w] b by simp
    moreover have "finishLines i w'' = finishLines i w'
       + length (filter (\<lambda>r. \<not> finished r \<and> RACE_DISTANCE \<le> distance r \<and> rid r = i) rs)"
      using Cons[of w'] f by simp
    ultimately show ?case using b f by simp
  qed
  then show ?thesis by (simp add: finishPass_io)
qed

lemma sameFlag_logged:
  assumes "list_all2 sameFlag xs ys"
    and "\<And>i. finishLines i w' = finishLines i w"
    and "list_all (\<lambda>r. finishLines (rid r) w = (if finished r then 1 else 0)) xs"
  shows "list_all (\<lambda>r. finishLines (rid r) w' = (if finished r then 1 else 0)) ys"
  using assms(1,3)
  by (induction rule: list_all2_induct) (simp_all add: sameFlag_def assms(2))

lemma advanceBody_sameFlag: "sameFlag r (fst (advanceBody rng r w))"
  by (simp add: advanceBody_def sameFlag_def mathRandom_def Let_def)

lemma crashBody_sameFlag: "sameFlag r (fst (crashBody rng net r w))"
  by (simp add: crashBody_def crashEvent_def sameFlag_def mathRandom_def Let_def)

lemma all2_priceOnly_sameFlag: "list_all2 priceOnly xs ys \<Longrightarrow> list_all2 sameFlag xs ys"
  by (erule list_all2_mono) (simp add: priceOnly_def sameFlag_def)

lemma advancePass_logged: "finishLogged s \<Longrightarrow> finishLogged (advancePass rng s)"
  unfolding finishLogged_def
proof (rule sameFlag_logged[where xs = "state s" and w = "io s"])
  show "list_all2 sameFlag (state s) (state (advancePass rng s))"
    unfolding advancePass_state by (rule forEach_all2) (rule advanceBody_sameFlag)
  show "finishLines i (io (advancePass rng s)) = finishLines i (io s)" for i
    unfolding advancePass_io by (rule forEach_lines_same) (rule advanceBody_lines)
qed

lemma crashPass_logged: "finishLogged s \<Longrightarrow> finishLogged (crashPass rng net s)"
  unfolding finishLogged_def
proof (rule sameFlag_logged[where xs = "state s" and w = "io s"])
  show "list_all2 sameFlag (state s) (state (crashPass rng net s))"
    unfolding crashPass_state by (rule forEach_all2) (rule crashBody_sameFlag)
  show "finishLines i (io (crashPass rng net s)) = finishLines i (io s)" for i
    unfolding crashPass_io by (rule forEach_lines_same) (rule crashBody_lines)
qed

lemma sortPass_logged: "finishLogged s \<Longrightarrow> finishLogged (sortPass s)"
  by (simp add: finishLogged_def sortPass_def sortByDistance_def list_all_iff)

lemma overtakePass_logged:
  assumes "overtakePass net s = Inr s'" and "finishLogged s"
  shows "finishLogged s'"
  using assms(2) unfolding finishLogged_def
  by (rule sameFlag_logged[OF all2_priceOnly_sameFlag[OF overtakePass_priceOnly[OF assms(1)]]
        overtakePass_lines[OF assms(1)]])

lemma crossing_count:
  assumes "distinct (map rid xs)" and "r \<in> set xs"
  shows "length (filter (\<lambda>x. Q x \<and> rid x = rid r) xs) = (if Q r then 1 else 0)"
  using assms
proof (induction xs)
  case Nil
  then show ?case by simp
next
  case (Cons x xs)
  show ?case
  proof (cases "x = r")
    case True
    have "rid r \<notin> rid ` set xs" using Cons.prems(1) True by simp
    then have "\<forall>y \<in> set xs. rid y \<noteq> rid r" by (metis imageI)
    then have "filter (\<lambda>x. Q x \<and> rid x = rid r) xs = []" by (auto simp: filter_empty_conv)
    with True show ?thesis by simp
  next
    case False
    with Cons.prems have r: "r \<in> set xs" by simp
    then have "rid x \<noteq> rid r" using Cons.prems(1) by auto
    with Cons.IH r Cons.prems(1) show ?thesis by simp
  qed
qed

lemma finishBody_flag:
  "rid (fst (finishBody net r w)) = rid r
   \<and> finished (fst (finishBody net r w)) = (finished r \<or> RACE_DISTANCE \<le> distance r)"
  by (simp add: finishBody_def Let_def)

lemma all2_image:
  "list_all2 R xs ys \<Longrightarrow> (\<And>x y. x \<in> set xs \<Longrightarrow> R x y \<Longrightarrow> P y) \<Longrightarrow> list_all P ys"
  by (induction rule: list_all2_induct) auto

lemma finishPass_logged:
  assumes "distinct (map rid (state s))" and "finishLogged s"
  shows "finishLogged (finishPass net s)"
  unfolding finishLogged_def
proof (rule all2_image[where xs = "state s" and
        R = "\<lambda>r r'. rid r' = rid r \<and> finished r' = (finished r \<or> RACE_DISTANCE \<le> distance r)"])
  show "list_all2 (\<lambda>r r'. rid r' = rid r \<and> finished r' = (finished r \<or> RACE_DISTANCE \<le> distance r))
          (state s) (state (finishPass net s))"
    unfolding finishPass_state by (rule forEach_all2) (rule finishBody_flag)
next
  fix x y
  assume x: "x \<in> set (state s)"
    and y: "rid y = rid x \<and> finished y = (finished x \<or> RACE_DISTANCE \<le> distance x)"
  have "finishLines (rid x) (io s) = (if finished x then 1 else 0)"
    using assms(2) x by (simp add: finishLogged_def list_all_iff)
  moreover have "length (filter (\<lambda>r. (\<not> finished r \<and> RACE_DISTANCE \<le> distance r) \<and> rid r = rid x) (state s))
        = (if \<not> finished x \<and> RACE_DISTANCE \<le> distance x then 1 else 0)"
    by (rule crossing_count[OF assms(1) x])
  ultimately show "finishLines (rid y) (io (finishPass net s)) = (if finished y then 1 else 0)"
    using y by (auto simp: finishPass_lines conj_assoc)
qed

lemma raceTick_logged:
  assumes "distinct (map rid (state s))" and "finishLogged s" and "raceTick rng net s = Inr s'"
  shows "finishLogged s' \<and> distinct (map rid (state s'))"
proof -
  let ?s0 = "s\<lparr>tick := tick s + 1\<rparr>"
  obtain s3 where s3: "overtakePass net (sortPass (advancePass rng ?s0)) = Inr s3"
    and t: "raceTick rng net s = Inr (finishPass net (crashPass rng net s3))"
    by (rule raceTick_cases[of net rng s]) blast
  have "finishLogged ?s0" using assms(2) by (simp add: finishLogged_def)
  then have "finishLogged s3"
    by (intro overtakePass_logged[OF s3] sortPass_logged advancePass_logged)
  then have 4: "finishLogged (crashPass rng net s3)" by (rule crashPass_logged)
  have d': "distinct (map rid (state s'))"
    using raceTick_rids[OF assms(3)] assms(1) by (metis distinct_count_atmost_1 set_mset_mset)
  have "map rid (state (crashPass rng net s3)) = map rid (state s')"
    using t assms(3) all2_drift_rids[OF finishPass_drift, of net "crashPass rng net s3"] by simp
  with d' have "distinct (map rid (state (crashPass rng net s3)))" by simp
  from finishPass_logged[OF this 4, of net] t assms(3) d' show ?thesis by simp
qed

lemma raceTicks_logged:
  "distinct (map rid (state s)) \<Longrightarrow> finishLogged s \<Longrightarrow> raceTicks n rng net s = Inr s'
     \<Longrightarrow> finishLogged s'"
proof (induction n arbitrary: s)
  case 0
  then show ?case by simp
next
  case (Suc n)
  obtain s1 where s1: "raceTick rng net s = Inr s1" using raceTick_ok by blast
  from raceTick_logged[OF Suc.prems(1,2) s1] have "finishLogged s1" "distinct (map rid (state s1))"
    by simp_all
  moreover have "raceTicks n rng net s1 = Inr s'" using Suc.prems(3) s1 by simp
  ultimately show ?case using Suc.IH by blast
qed

lemma initRace_logged: "finishLogged (initRace racers)"
  by (simp add: finishLogged_def initRace_def initParticipant_def finishLines_def list_all_iff)

text \<open>
  Claim C5. The finish pass is the finish rule of the specification applied to every
  participant of the array, for one participant as for the pass; a finished
  participant and the world are left as they are. In a tick the finish pass runs on the
  state the crash pass returns. In a race with distinct ids that starts with one
  \<open>Finish\<close> line per finished participant and none for the others, as the initial
  state does, this is so again after any number of ticks.
\<close>

theorem finish_marks_once:
  assumes "pricesNonneg (state s)" and "distinct (map rid (state s))" and "finishLogged s"
  shows "state (finishPass net s) = map spec_finish (state s)
       \<and> (0 \<le> currentPriceWei r \<longrightarrow> fst (finishBody net r w) = spec_finish r)
       \<and> (finished f \<longrightarrow> finishBody net f w = (f, w))
       \<and> (raceTick rng net s = Inr s' \<longrightarrow>
            (\<exists>s3. overtakePass net (sortPass (advancePass rng (s\<lparr>tick := tick s + 1\<rparr>))) = Inr s3
                  \<and> s' = finishPass net (crashPass rng net s3)))
       \<and> (raceTicks n rng net s = Inr s'' \<longrightarrow> finishLogged s'')
       \<and> finishLogged (initRace racers)"
proof (intro conjI impI)
  show "state (finishPass net s) = map spec_finish (state s)"
    by (rule finishPass_spec[OF assms(1)])
next
  assume "0 \<le> currentPriceWei r"
  then show "fst (finishBody net r w) = spec_finish r" by (rule finishBody_spec)
next
  assume "finished f"
  then show "finishBody net f w = (f, w)" by (simp add: finishBody_def)
next
  assume t: "raceTick rng net s = Inr s'"
  obtain s3 where "overtakePass net (sortPass (advancePass rng (s\<lparr>tick := tick s + 1\<rparr>))) = Inr s3"
    and "raceTick rng net s = Inr (finishPass net (crashPass rng net s3))"
    by (rule raceTick_cases[of net rng s]) blast
  with t show "\<exists>s3. overtakePass net (sortPass (advancePass rng (s\<lparr>tick := tick s + 1\<rparr>))) = Inr s3
                  \<and> s' = finishPass net (crashPass rng net s3)" by simp
next
  assume "raceTicks n rng net s = Inr s''"
  then show "finishLogged s''" by (rule raceTicks_logged[OF assms(2,3)])
next
  show "finishLogged (initRace racers)" by (rule initRace_logged)
qed

theorem finish_marks_once_witness:
  "pricesNonneg (state s4) \<and> distinct (map rid (state s4)) \<and> finishLogged s4
   \<and> 0 \<le> currentPriceWei (p4\<lparr>distance := 5005\<rparr>)
   \<and> fst (finishBody (\<lambda>n. False) (p4\<lparr>distance := 5005\<rparr>) w0)
        = p4\<lparr>distance := 5005, finished := True, currentPriceWei := 1050\<rparr>
   \<and> finished p5 \<and> finishBody (\<lambda>n. False) p5 w0 = (p5, w0)
   \<and> raceTick (drawsWithZeroAt 2) (\<lambda>n. False) s4 =
        Inr \<lparr>state = [p4\<lparr>distance := 4985, currentPriceWei := 800\<rparr>],
             lastOrder = Some [4], tick = 1,
             io = \<lparr>rnd = 3, posts = 1, log = [Crash 4, WriteFailed 4 800]\<rparr>\<rparr>
   \<and> raceTicks 3 (drawsWithZeroAt 2) (\<lambda>n. False) s4 =
        Inr \<lparr>state = [p4\<lparr>distance := 5005, finished := True, currentPriceWei := 840\<rparr>],
             lastOrder = Some [4], tick = 3,
             io = \<lparr>rnd = 9, posts = 2,
                   log = [Crash 4, WriteFailed 4 800, Finish 4, WriteFailed 4 840]\<rparr>\<rparr>
   \<and> finishLogged \<lparr>state = [p4\<lparr>distance := 5005, finished := True, currentPriceWei := 840\<rparr>],
             lastOrder = Some [4], tick = 3,
             io = \<lparr>rnd = 9, posts = 2,
                   log = [Crash 4, WriteFailed 4 800, Finish 4, WriteFailed 4 840]\<rparr>\<rparr>"
  (is ?w)
proof -
  have e: ?w by code_simp
  show ?thesis
    using finish_marks_once[of s4 "\<lambda>n. False" "p4\<lparr>distance := 5005\<rparr>" w0 p5 "drawsWithZeroAt 2" _ 3]
    by - (rule e)
qed

section \<open>Overtake detection\<close>

lemma overtakesIn_say:
  "overtakesIn (say e w) = overtakesIn w @ (if isOvertake e then [e] else [])"
  by (simp add: overtakesIn_def say_def)

lemma overtakesIn_tryPost: "overtakesIn (tryPost net j p w) = overtakesIn w"
  by (simp add: overtakesIn_def tryPost_log)

lemma advanceBody_overtakes: "overtakesIn (snd (advanceBody rng r w)) = overtakesIn w"
  by (simp add: advanceBody_def mathRandom_def overtakesIn_def Let_def)

lemma crashBody_overtakes: "overtakesIn (snd (crashBody rng net r w)) = overtakesIn w"
  by (simp add: crashBody_def crashEvent_def mathRandom_def Let_def overtakesIn_tryPost overtakesIn_say)
     (simp add: overtakesIn_def)

lemma finishBody_overtakes: "overtakesIn (snd (finishBody net r w)) = overtakesIn w"
  by (simp add: finishBody_def Let_def overtakesIn_tryPost overtakesIn_say)

lemma forEach_overtakes_same:
  assumes "\<And>r w. overtakesIn (snd (body r w)) = overtakesIn w"
  shows "overtakesIn (snd (forEach body rs w)) = overtakesIn w"
  using forEach_world[of "\<lambda>v. overtakesIn v = overtakesIn w" body w rs] assms by simp

lemma overtakeEvent_overtakes:
  "overtakesIn (snd (overtakeEvent net c old new k st w)) = overtakesIn w @ [Overtake c old new]"
  by (simp add: overtakeEvent_def Let_def overtakesIn_tryPost overtakesIn_say)

lemma upt_shift:
  "concat (map f [0..<Suc n]) = f 0 @ concat (map (\<lambda>j. f (Suc j)) [0..<n])"
proof -
  have "[0..<Suc n] = 0 # map Suc [0..<n]" by (simp add: upt_conv_Cons map_Suc_upt)
  then show ?thesis by (simp add: comp_def)
qed

lemma overtakeLoop_overtakes:
  "overtakeLoop net prev rest i st w = Inr (st', w') \<Longrightarrow>
     overtakesIn w' =
       overtakesIn w @ concat (map (\<lambda>j. overtakesAt prev (rest ! j) (i + j)) [0..<length rest])"
proof (induction rest arbitrary: i st w)
  case Nil
  then show ?case by simp
next
  case (Cons c rest)
  have sh: "concat (map (\<lambda>j. overtakesAt prev ((c # rest) ! j) (i + j)) [0..<length (c # rest)])
      = overtakesAt prev c i
          @ concat (map (\<lambda>j. overtakesAt prev (rest ! j) (i + 1 + j)) [0..<length rest])"
    using upt_shift[of "\<lambda>j. overtakesAt prev ((c # rest) ! j) (i + j)" "length rest"] by simp
  show ?case
  proof (cases "indexOf prev c > int i")
    case False
    with Cons.prems have "overtakeLoop net prev rest (i + 1) st w = Inr (st', w')" by simp
    from Cons.IH[OF this] False show ?thesis unfolding sh by (simp add: overtakesAt_def)
  next
    case True
    with Cons.prems obtain k where k: "findRef (\<lambda>x. rid x = c) st = Some k"
      by (cases "findRef (\<lambda>x. rid x = c) st") simp_all
    let ?ev = "overtakeEvent net c (nat (indexOf prev c + 1)) (i + 1) k st w"
    have "overtakeLoop net prev rest (i + 1) (fst ?ev) (snd ?ev) = Inr (st', w')"
      using Cons.prems True k by (simp add: split_beta Let_def)
    from Cons.IH[OF this] True show ?thesis
      unfolding sh by (simp add: overtakesAt_def overtakeEvent_overtakes)
  qed
qed

lemma overtakePass_first:
  "lastOrder s = None \<Longrightarrow> overtakePass net s = Inr (s\<lparr>lastOrder := Some (map rid (state s))\<rparr>)"
  by (simp add: overtakePass_def)

lemma overtakePass_later:
  assumes "lastOrder s = Some prev" and "overtakePass net s = Inr s'"
  shows "overtakesIn (io s') = overtakesIn (io s) @ spec_overtakes prev (map rid (state s))
       \<and> lastOrder s' = Some (map rid (state s))"
proof -
  from assms obtain st1 w1 where
    l: "overtakeLoop net prev (map rid (state s)) 0 (state s) (io s) = Inr (st1, w1)"
    and s': "s' = s\<lparr>state := st1, io := w1, lastOrder := Some (map rid (state s))\<rparr>"
    by (auto simp: overtakePass_def Let_def split: sum.splits)
  from overtakeLoop_overtakes[OF l] s' show ?thesis by (simp add: spec_overtakes_def)
qed

lemma raceTick_overtakes:
  assumes "raceTick rng net s = Inr s'"
  shows "lastOrder s' = Some (map rid (sortByDistance (state (advancePass rng (s\<lparr>tick := tick s + 1\<rparr>)))))
       \<and> (lastOrder s = None \<longrightarrow> overtakesIn (io s') = overtakesIn (io s))
       \<and> (lastOrder s = Some prev \<longrightarrow>
            overtakesIn (io s') = overtakesIn (io s)
              @ spec_overtakes prev
                  (map rid (sortByDistance (state (advancePass rng (s\<lparr>tick := tick s + 1\<rparr>))))))"
proof -
  let ?s1 = "advancePass rng (s\<lparr>tick := tick s + 1\<rparr>)"
  let ?s2 = "sortPass ?s1"
  obtain s3 where s3: "overtakePass net ?s2 = Inr s3"
    and t: "raceTick rng net s = Inr (finishPass net (crashPass rng net s3))"
    by (rule raceTick_cases[of net rng s]) blast
  have s': "s' = finishPass net (crashPass rng net s3)" using assms t by simp
  have io': "overtakesIn (io s') = overtakesIn (io s3)"
    unfolding s' finishPass_io crashPass_io
    by (simp add: forEach_overtakes_same finishBody_overtakes crashBody_overtakes)
  have lo': "lastOrder s' = lastOrder s3" by (simp add: s' finishPass_other crashPass_other)
  have io2: "overtakesIn (io ?s2) = overtakesIn (io s)"
    by (simp add: sortPass_def advancePass_io forEach_overtakes_same advanceBody_overtakes)
  have lo2: "lastOrder ?s2 = lastOrder s" by (simp add: sortPass_def advancePass_other)
  have st2: "state ?s2 = sortByDistance (state ?s1)" by (simp add: sortPass_def)
  show ?thesis
  proof (cases "lastOrder s")
    case None
    then have "s3 = ?s2\<lparr>lastOrder := Some (map rid (state ?s2))\<rparr>"
      using s3 overtakePass_first[of ?s2 net] lo2 by simp
    then have "lastOrder s3 = Some (map rid (state ?s2))" "io s3 = io ?s2" by simp_all
    with None io' lo' io2 st2 show ?thesis by simp
  next
    case (Some p)
    from overtakePass_later[OF _ s3, of p] Some lo2
    have "overtakesIn (io s3) = overtakesIn (io ?s2) @ spec_overtakes p (map rid (state ?s2))"
      "lastOrder s3 = Some (map rid (state ?s2))" by simp_all
    with Some io' lo' io2 st2 show ?thesis by simp
  qed
qed

subsection \<open>Ties\<close>

lemma before_split: "a \<notin> set us \<Longrightarrow> before (us @ a # vs) a b \<longleftrightarrow> b \<in> set vs"
proof -
  assume "a \<notin> set us"
  then have "dropWhile (\<lambda>x. x \<noteq> a) (us @ a # vs) = a # vs"
    by (auto simp: dropWhile_append3)
  then show ?thesis by (simp add: before_def)
qed

lemma before_decomp:
  assumes "before xs a b"
  shows "\<exists>us vs. xs = us @ a # vs \<and> a \<notin> set us \<and> b \<in> set vs"
proof -
  let ?d = "dropWhile (\<lambda>x. x \<noteq> a) xs"
  from assms have ne: "?d \<noteq> []" unfolding before_def by (cases ?d) simp_all
  then have "hd ?d = a" using hd_dropWhile[of "\<lambda>x. x \<noteq> a" xs] by simp
  with ne have d: "?d = a # tl ?d" by (cases ?d) simp_all
  have "xs = takeWhile (\<lambda>x. x \<noteq> a) xs @ a # tl ?d"
    using takeWhile_dropWhile_id[of "\<lambda>x. x \<noteq> a" xs] d by simp
  moreover have "a \<notin> set (takeWhile (\<lambda>x. x \<noteq> a) xs)" by (auto dest: set_takeWhileD)
  moreover have "b \<in> set (tl ?d)" using assms d by (simp add: before_def drop_Suc)
  ultimately show ?thesis by blast
qed

lemma before_filter:
  assumes "before xs a b" and "P a" and "P b"
  shows "before (filter P xs) a b"
proof -
  from before_decomp[OF assms(1)] obtain us vs where
    d: "xs = us @ a # vs" "a \<notin> set us" "b \<in> set vs" by blast
  have "filter P xs = filter P us @ a # filter P vs" using d(1) assms(2) by simp
  moreover have "a \<notin> set (filter P us)" using d(2) by simp
  moreover have "b \<in> set (filter P vs)" using d(3) assms(3) by simp
  ultimately show ?thesis by (simp add: before_split)
qed

lemma before_antisym:
  assumes "distinct xs" and "before xs a b"
  shows "\<not> before xs b a"
proof -
  from before_decomp[OF assms(2)] obtain us vs where
    d: "xs = us @ a # vs" "a \<notin> set us" "b \<in> set vs" by blast
  from d(3) obtain v1 v2 where v: "vs = v1 @ b # v2" by (auto dest: split_list)
  have dis: "distinct (us @ a # v1 @ b # v2)" using assms(1) d(1) v by simp
  then have "b \<notin> set (us @ a # v1)" by auto
  then have "before ((us @ a # v1) @ b # v2) b a \<longleftrightarrow> a \<in> set v2" by (rule before_split)
  moreover have "a \<notin> set v2" using dis by auto
  ultimately show ?thesis using d(1) v by simp
qed

lemma indexOf_nth:
  "distinct zs \<Longrightarrow> p < length zs \<Longrightarrow> indexOf zs (zs ! p) = int p"
proof (induction zs arbitrary: p)
  case Nil
  then show ?case by simp
next
  case (Cons z zs)
  show ?case
  proof (cases p)
    case 0
    then show ?thesis by simp
  next
    case (Suc q)
    with Cons.prems have q: "q < length zs" "distinct zs" by simp_all
    then have "zs ! q \<noteq> z" using Cons.prems(1) by auto
    with Cons.IH[OF q(2,1)] Suc show ?thesis by (simp add: Let_def)
  qed
qed

lemma sortByDistance_stable:
  "filter (\<lambda>r. distance r = d) (sortByDistance xs) = filter (\<lambda>r. distance r = d) xs"
  using sort_key_stable[of "\<lambda>r. - distance r" "- d" xs] by (simp add: sortByDistance_def)

lemma sortByDistance_sorted:
  "sortByDistance xs = us @ a # vs \<Longrightarrow> b \<in> set vs \<Longrightarrow> distance b \<le> distance a"
proof -
  assume e: "sortByDistance xs = us @ a # vs" and b: "b \<in> set vs"
  have "sorted (map (\<lambda>r. - distance r) (sortByDistance xs))"
    by (simp add: sortByDistance_def)
  with e b show ?thesis by (auto simp: sorted_append)
qed

lemma overtaker_passes_slower:
  assumes dx: "distinct (map rid xs)" and i: "i < length xs"
    and up: "int i < indexOf (map rid xs) (rid (sortByDistance xs ! i))"
  shows "\<exists>b \<in> set xs. before xs b (sortByDistance xs ! i)
            \<and> before (sortByDistance xs) (sortByDistance xs ! i) b
            \<and> distance b < distance (sortByDistance xs ! i)"
proof -
  let ?ys = "sortByDistance xs"
  let ?a = "?ys ! i"
  have len: "length ?ys = length xs" by (simp add: sortByDistance_def)
  have sety: "set ?ys = set xs" by (simp add: sortByDistance_def)
  have dxs: "distinct xs" using dx by (simp add: distinct_map)
  have dys: "distinct ?ys" using dxs by (simp add: sortByDistance_def)
  have "?a \<in> set xs" using i len sety nth_mem by metis
  then obtain p where p: "p < length xs" "xs ! p = ?a" by (auto simp: in_set_conv_nth)
  have "indexOf (map rid xs) (rid ?a) = int p"
    using indexOf_nth[OF dx, of p] p by simp
  with up have ip: "i < p" by simp
  have "\<not> set (take p xs) \<subseteq> set (take i ?ys)"
  proof
    assume "set (take p xs) \<subseteq> set (take i ?ys)"
    then have "card (set (take p xs)) \<le> card (set (take i ?ys))" by (simp add: card_mono)
    moreover have "card (set (take p xs)) = p"
      using distinct_card[OF distinct_take[OF dxs, of p]] p(1) by simp
    moreover have "card (set (take i ?ys)) \<le> i"
      using card_length[of "take i ?ys"] by simp
    ultimately show False using ip by simp
  qed
  then obtain b where b: "b \<in> set (take p xs)" "b \<notin> set (take i ?ys)" by blast
  have xsplit: "xs = take p xs @ ?a # drop (Suc p) xs" using id_take_nth_drop[OF p(1)] p(2) by simp
  have ysplit: "?ys = take i ?ys @ ?a # drop (Suc i) ?ys"
    using id_take_nth_drop[of i ?ys] i len by simp
  have ba: "b \<noteq> ?a" using b(1) dxs xsplit by (metis distinct_append disjoint_iff list.set_intros(1))
  have bxs: "b \<in> set xs" using b(1) by (rule in_set_takeD)
  then have "b \<in> set ?ys" using sety by simp
  then have bd: "b \<in> set (drop (Suc i) ?ys)" using ysplit b(2) ba
    by (metis Un_iff set_append set_ConsD)
  have bef_y: "before ?ys ?a b"
  proof -
    have "?a \<notin> set (take i ?ys)" using dys ysplit
      by (metis distinct_append disjoint_iff list.set_intros(1))
    from before_split[OF this, of "drop (Suc i) ?ys" b] bd ysplit show ?thesis by simp
  qed
  have bef_x: "before xs b ?a"
  proof -
    from b(1) obtain u1 u2 where u: "take p xs = u1 @ b # u2" "b \<notin> set u1"
      by (auto dest: split_list_first)
    have "xs = u1 @ b # (u2 @ ?a # drop (Suc p) xs)" using xsplit u(1) by simp
    moreover have "before (u1 @ b # (u2 @ ?a # drop (Suc p) xs)) b ?a"
      using before_split[OF u(2)] by simp
    ultimately show ?thesis by simp
  qed
  have le: "distance b \<le> distance ?a" using sortByDistance_sorted[OF ysplit bd] .
  have "distance b \<noteq> distance ?a"
  proof
    assume eq: "distance b = distance ?a"
    let ?P = "\<lambda>r. distance r = distance ?a"
    have "before (filter ?P xs) b ?a" using bef_x eq by (intro before_filter) simp_all
    moreover have "before (filter ?P ?ys) ?a b" using bef_y eq by (intro before_filter) simp_all
    moreover have "filter ?P ?ys = filter ?P xs" by (rule sortByDistance_stable)
    moreover have "distinct (filter ?P xs)" using dxs by simp
    ultimately show False using before_antisym by metis
  qed
  with le have "distance b < distance ?a" by simp
  with bxs bef_x bef_y show ?thesis by blast
qed

lemma spec_overtakes_mem:
  assumes "e \<in> set (spec_overtakes prev cur)"
  shows "\<exists>i < length cur. int i < indexOf prev (cur ! i)
           \<and> e = Overtake (cur ! i) (nat (indexOf prev (cur ! i) + 1)) (i + 1)"
proof -
  from assms obtain i where "i < length cur" "e \<in> set (overtakesAt prev (cur ! i) i)"
    by (auto simp: spec_overtakes_def)
  then show ?thesis by (auto simp: overtakesAt_def Let_def split: if_splits)
qed

text \<open>
  Claim C2. Let \<open>ranked\<close> be the array after the sort of a tick. The tick records
  the ids of \<open>ranked\<close> as the order for the next tick and leaves the array in that
  order. On the first tick (no recorded order) it writes no \<open>Overtake\<close> line; on a later
  tick it writes exactly the lines the specification's rule gives for the recorded order
  and the ids of \<open>ranked\<close>, in index order. The sort keeps the relative order of the
  participants of any one distance; so, when the recorded order is the order of the array
  and ids are distinct, every \<open>Overtake\<close> line for an id \<open>c\<close> comes with a participant
  that stood before \<open>c\<close>, stands behind it now, and has a strictly smaller distance.
\<close>

theorem overtake_detection:
  assumes "raceTick rng net s = Inr s'"
    and "advanced = state (advancePass rng (s\<lparr>tick := tick s + 1\<rparr>))"
    and "ranked = sortByDistance advanced"
  shows "lastOrder s' = Some (map rid ranked)
       \<and> map rid (state s') = map rid ranked
       \<and> (lastOrder s = None \<longrightarrow> overtakesIn (io s') = overtakesIn (io s))
       \<and> (lastOrder s = Some prev \<longrightarrow>
            overtakesIn (io s') = overtakesIn (io s) @ spec_overtakes prev (map rid ranked))
       \<and> filter (\<lambda>r. distance r = d) ranked = filter (\<lambda>r. distance r = d) advanced
       \<and> (distinct (map rid (state s)) \<and> lastOrder s = Some (map rid (state s))
            \<and> Overtake c oldRank newRank \<in> set (spec_overtakes (map rid (state s)) (map rid ranked))
          \<longrightarrow> (\<exists>a \<in> set advanced. \<exists>b \<in> set advanced.
                 rid a = c \<and> before advanced b a \<and> before ranked a b
                 \<and> distance b < distance a))"
proof -
  have ids: "map rid advanced = map rid (state s)"
    unfolding assms(2)
    using all2_drift_rids[OF advancePass_drift[of "s\<lparr>tick := tick s + 1\<rparr>" rng]] by simp
  have len: "length ranked = length advanced" by (simp add: assms(3) sortByDistance_def)
  have "\<exists>a \<in> set advanced. \<exists>b \<in> set advanced.
                 rid a = c \<and> before advanced b a \<and> before ranked a b
                 \<and> distance b < distance a"
    if h: "distinct (map rid (state s))"
      "Overtake c oldRank newRank \<in> set (spec_overtakes (map rid (state s)) (map rid ranked))"
  proof -
    from spec_overtakes_mem[OF h(2)] obtain i where
      i: "i < length ranked" "int i < indexOf (map rid (state s)) (map rid ranked ! i)"
         "c = map rid ranked ! i" by auto
    have dx: "distinct (map rid advanced)" using h(1) ids by simp
    have i': "i < length advanced" using i(1) len by simp
    have up: "int i < indexOf (map rid advanced) (rid (sortByDistance advanced ! i))"
      using i(1,2) ids by (simp add: assms(3))
    from overtaker_passes_slower[OF dx i' up] obtain b where
      b: "b \<in> set advanced" "before advanced b (ranked ! i)" "before ranked (ranked ! i) b"
         "distance b < distance (ranked ! i)" by (auto simp: assms(3))
    have "ranked ! i \<in> set advanced"
      using i(1) nth_mem[of i ranked] by (simp add: assms(3) sortByDistance_def)
    moreover have "rid (ranked ! i) = c" using i(1,3) by simp
    ultimately show ?thesis using b by blast
  qed
  moreover have "filter (\<lambda>r. distance r = d) ranked = filter (\<lambda>r. distance r = d) advanced"
    unfolding assms(3) by (rule sortByDistance_stable)
  moreover have "map rid (state s') = map rid ranked"
    using raceTick_order[OF assms(1)] by (simp add: assms(2,3))
  ultimately show ?thesis
    using raceTick_overtakes[OF assms(1), of prev] by (simp add: assms(2,3))
qed

theorem overtake_detection_witness:
  "raceTick (\<lambda>n. 1 / 2) (\<lambda>n. False) s12 =
     Inr \<lparr>state = [p2\<lparr>distance := 17, currentPriceWei := 60\<rparr>, p1\<lparr>distance := 13\<rparr>],
          lastOrder = Some [2, 1], tick = 2,
          io = \<lparr>rnd = 6, posts = 1, log = [Overtake 2 2 1, WriteFailed 2 60]\<rparr>\<rparr>
   \<and> state (advancePass (\<lambda>n. 1 / 2) (s12\<lparr>tick := tick s12 + 1\<rparr>))
        = [p1\<lparr>distance := 13\<rparr>, p2\<lparr>distance := 17\<rparr>]
   \<and> sortByDistance [p1\<lparr>distance := 13\<rparr>, p2\<lparr>distance := 17\<rparr>]
        = [p2\<lparr>distance := 17\<rparr>, p1\<lparr>distance := 13\<rparr>]
   \<and> lastOrder s12 = Some [1, 2]
   \<and> overtakesIn (io s12) @ spec_overtakes [1, 2] [2, 1] = [Overtake 2 2 1]
   \<and> distinct (map rid (state s12))
   \<and> lastOrder s12 = Some (map rid (state s12))
   \<and> Overtake 2 2 1 \<in> set (spec_overtakes (map rid (state s12)) [2, 1])
   \<and> before [p1\<lparr>distance := 13\<rparr>, p2\<lparr>distance := 17\<rparr>]
         (p1\<lparr>distance := 13\<rparr>) (p2\<lparr>distance := 17\<rparr>)
   \<and> before [p2\<lparr>distance := 17\<rparr>, p1\<lparr>distance := 13\<rparr>]
         (p2\<lparr>distance := 17\<rparr>) (p1\<lparr>distance := 13\<rparr>)
   \<and> distance (p1\<lparr>distance := 13\<rparr>) < distance (p2\<lparr>distance := 17\<rparr>)
   \<and> lastOrder s4 = None
   \<and> raceTick (\<lambda>n. 1 / 2) (\<lambda>n. False) s4 =
     Inr \<lparr>state = [p4\<lparr>distance := 5005, finished := True, currentPriceWei := 1050\<rparr>],
          lastOrder = Some [4], tick = 1,
          io = \<lparr>rnd = 3, posts = 1, log = [Finish 4, WriteFailed 4 1050]\<rparr>\<rparr>
   \<and> overtakesIn \<lparr>rnd = 3, posts = 1, log = [Finish 4, WriteFailed 4 1050]\<rparr> = overtakesIn (io s4)
   \<and> raceTick (\<lambda>n. 1 / 2) (\<lambda>n. False) sTied =
     Inr \<lparr>state = [p1\<lparr>distance := 17\<rparr>, p2\<lparr>distance := 17\<rparr>],
          lastOrder = Some [1, 2], tick = 2,
          io = \<lparr>rnd = 6, posts = 0, log = []\<rparr>\<rparr>"
  (is ?w)
proof -
  have e: ?w by code_simp
  show ?thesis
    using overtake_detection[of "\<lambda>n. 1 / 2" "\<lambda>n. False" s12 _
            "[p1\<lparr>distance := 13\<rparr>, p2\<lparr>distance := 17\<rparr>]"
            "[p2\<lparr>distance := 17\<rparr>, p1\<lparr>distance := 13\<rparr>]" "[1, 2]" 13 2 2 1]
          overtake_detection[of "\<lambda>n. 1 / 2" "\<lambda>n. False" s4]
    by - (rule e)
qed

section \<open>Crashes and the order of the array\<close>

lemma crashEvent_effect:
  assumes "0 \<le> currentPriceWei r"
  shows "fst (crashEvent net r w) =
           r\<lparr>distance := max 0 (distance r - of_nat (speedStat r) * 2),
             currentPriceWei := max 0 (currentPriceWei r - currentPriceWei r * 20 div 100)\<rparr>"
proof -
  have m: "max 0 (currentPriceWei r - currentPriceWei r * 20 div 100)
             = currentPriceWei r - currentPriceWei r * 20 div 100"
    using assms by arith
  show ?thesis unfolding m using assms by (simp add: crashEvent_def Let_def pct_crash)
qed

lemma crashEvent_log:
  "log (snd (crashEvent net r w)) =
     log w @ [Crash (rid r),
              if net (posts w)
              then WriteOk (rid r) (applyPercentBigInt (currentPriceWei r) CRASH_PENALTY_PCT False)
              else WriteFailed (rid r) (applyPercentBigInt (currentPriceWei r) CRASH_PENALTY_PCT False)]"
  by (simp add: crashEvent_def Let_def tryPost_log say_def)

lemma crashBody_cases:
  "(log (snd (crashBody rng net r w)) \<noteq> log w \<longrightarrow>
      \<not> finished r \<and> crashBody rng net r w = crashEvent net r (snd (mathRandom rng w)))
   \<and> (log (snd (crashBody rng net r w)) = log w \<longrightarrow> fst (crashBody rng net r w) = r)"
  by (simp add: crashBody_def mathRandom_def crashEvent_log)

text \<open>
  Claim C4, as amended. Whenever the crash body of the loop runs for a participant, its
  distance becomes \<open>max 0 (distance - 2 * speedStat)\<close> and its non-negative price \<open>p\<close>
  becomes \<open>max 0 (p - p * 20 div 100)\<close>; the crash pass writes a \<open>Crash\<close> line only for
  a participant that has not finished, and then it has run this body. The crash pass
  leaves the order of the array and the recorded order as they are, and the tick ends in
  the order of its own sort, which it has recorded. When someone is left unfinished the
  loop goes round with that state, so the next sort is the one of the next tick; when all
  have finished the same iteration sorts the array once more before it returns.
\<close>

theorem crash_effect:
  assumes "0 \<le> currentPriceWei r"
  shows "fst (crashEvent net r w) =
           r\<lparr>distance := max 0 (distance r - of_nat (speedStat r) * 2),
             currentPriceWei := max 0 (currentPriceWei r - currentPriceWei r * 20 div 100)\<rparr>
       \<and> log (snd (crashEvent net r w)) = log w @ [Crash (rid r),
             if net (posts w)
             then WriteOk (rid r) (max 0 (currentPriceWei r - currentPriceWei r * 20 div 100))
             else WriteFailed (rid r) (max 0 (currentPriceWei r - currentPriceWei r * 20 div 100))]
       \<and> (log (snd (crashBody rng net r w)) \<noteq> log w \<longrightarrow>
            \<not> finished r \<and> crashBody rng net r w = crashEvent net r (snd (mathRandom rng w)))
       \<and> (log (snd (crashBody rng net r w)) = log w \<longrightarrow> fst (crashBody rng net r w) = r)
       \<and> map rid (state (crashPass rng net s)) = map rid (state s)
       \<and> lastOrder (crashPass rng net s) = lastOrder s
       \<and> (raceTick rng net s = Inr s' \<longrightarrow>
            map rid (state s') =
              map rid (sortByDistance (state (advancePass rng (s\<lparr>tick := tick s + 1\<rparr>))))
            \<and> lastOrder s' = Some (map rid (state s')))
       \<and> (raceTick rng net s = Inr s' \<and> \<not> list_all finished (state s') \<longrightarrow>
            raceLoop rng net s = raceLoop rng net s')
       \<and> (raceTick rng net s = Inr s' \<and> list_all finished (state s') \<longrightarrow>
            raceLoop rng net s = Some (Inr (s'\<lparr>state := sortByDistance (state s')\<rparr>)))"
proof -
  have m: "max 0 (currentPriceWei r - currentPriceWei r * 20 div 100)
             = applyPercentBigInt (currentPriceWei r) CRASH_PENALTY_PCT False"
    using assms pct_crash[OF assms] by arith
  have 1: "log (snd (crashEvent net r w)) = log w @ [Crash (rid r),
             if net (posts w)
             then WriteOk (rid r) (max 0 (currentPriceWei r - currentPriceWei r * 20 div 100))
             else WriteFailed (rid r) (max 0 (currentPriceWei r - currentPriceWei r * 20 div 100))]"
    unfolding m by (rule crashEvent_log)
  have 2: "map rid (state (crashPass rng net s)) = map rid (state s)"
    by (rule all2_drift_rids[OF crashPass_drift])
  have 3: "lastOrder (crashPass rng net s) = lastOrder s"
    by (simp add: crashPass_other)
  have 4: "map rid (state s') =
              map rid (sortByDistance (state (advancePass rng (s\<lparr>tick := tick s + 1\<rparr>))))
            \<and> lastOrder s' = Some (map rid (state s'))"
    if "raceTick rng net s = Inr s'"
    using raceTick_order[OF that] raceTick_overtakes[OF that] by simp
  show ?thesis
    using crashEvent_effect[OF assms, of net w] 1 crashBody_cases[of rng net r w] 2 3 4
      raceLoop_step[of rng net s s'] raceLoop_exit[of rng net s s']
    by blast
qed

lemma tick_sLate:
  "raceTick (\<lambda>n. 0) (\<lambda>n. False) sLate =
     Inr \<lparr>state = [p6\<lparr>distance := 20027 / 4, finished := True, currentPriceWei := 924\<rparr>, p7],
          lastOrder = Some [6, 7], tick = 10,
          io = \<lparr>rnd = 3, posts = 3,
                log = [Overtake 6 2 1, WriteFailed 6 1100, Crash 6, WriteFailed 6 880,
                       Finish 6, WriteFailed 6 924]\<rparr>\<rparr>"
  by code_simp

lemma loop_sLate:
  "raceLoop (\<lambda>n. 0) (\<lambda>n. False) sLate =
     Some (Inr \<lparr>state = [p7, p6\<lparr>distance := 20027 / 4, finished := True, currentPriceWei := 924\<rparr>],
          lastOrder = Some [6, 7], tick = 10,
          io = \<lparr>rnd = 3, posts = 3,
                log = [Overtake 6 2 1, WriteFailed 6 1100, Crash 6, WriteFailed 6 880,
                       Finish 6, WriteFailed 6 924]\<rparr>\<rparr>)"
  by code_simp

theorem crash_effect_witness:
  "0 \<le> currentPriceWei (p2\<lparr>distance := 17\<rparr>)
   \<and> fst (crashEvent (\<lambda>n. False) (p2\<lparr>distance := 17\<rparr>) (w0\<lparr>rnd := 5\<rparr>))
        = p2\<lparr>distance := 0, currentPriceWei := 44\<rparr>
   \<and> log (snd (crashBody (drawsWithZeroAt 4) (\<lambda>n. False) (p2\<lparr>distance := 17\<rparr>) (w0\<lparr>rnd := 4\<rparr>)))
        \<noteq> log (w0\<lparr>rnd := 4\<rparr>)
   \<and> log (snd (crashBody (drawsWithZeroAt 4) (\<lambda>n. False) p1 (w0\<lparr>rnd := 5\<rparr>)))
        = log (w0\<lparr>rnd := 5\<rparr>)
   \<and> raceTick (drawsWithZeroAt 4) (\<lambda>n. False) s12 =
     Inr \<lparr>state = [p2\<lparr>distance := 0, currentPriceWei := 48\<rparr>, p1\<lparr>distance := 13\<rparr>],
          lastOrder = Some [2, 1], tick = 2,
          io = \<lparr>rnd = 6, posts = 2,
                log = [Overtake 2 2 1, WriteFailed 2 60, Crash 2, WriteFailed 2 48]\<rparr>\<rparr>
   \<and> \<not> list_all finished [p2\<lparr>distance := 0, currentPriceWei := 48\<rparr>, p1\<lparr>distance := 13\<rparr>]
   \<and> map rid (sortByDistance (state (advancePass (drawsWithZeroAt 4) (s12\<lparr>tick := tick s12 + 1\<rparr>))))
        = [2, 1]
   \<and> raceTick (\<lambda>n. 0) (\<lambda>n. False) sLate =
     Inr \<lparr>state = [p6\<lparr>distance := 20027 / 4, finished := True, currentPriceWei := 924\<rparr>, p7],
          lastOrder = Some [6, 7], tick = 10,
          io = \<lparr>rnd = 3, posts = 3,
                log = [Overtake 6 2 1, WriteFailed 6 1100, Crash 6, WriteFailed 6 880,
                       Finish 6, WriteFailed 6 924]\<rparr>\<rparr>
   \<and> list_all finished [p6\<lparr>distance := 20027 / 4, finished := True, currentPriceWei := 924\<rparr>, p7]
   \<and> sortByDistance [p6\<lparr>distance := 20027 / 4, finished := True, currentPriceWei := 924\<rparr>, p7]
        = [p7, p6\<lparr>distance := 20027 / 4, finished := True, currentPriceWei := 924\<rparr>]"
  (is ?w)
proof -
  have e: ?w by code_simp
  show ?thesis
    using crash_effect[of "p2\<lparr>distance := 17\<rparr>" "\<lambda>n. False" "w0\<lparr>rnd := 5\<rparr>"
            "drawsWithZeroAt 4" s12]
          crash_effect[of p1 "\<lambda>n. False" "w0\<lparr>rnd := 5\<rparr>" "drawsWithZeroAt 4" s12]
          crash_effect[of p6 "\<lambda>n. False" w0 "\<lambda>n. 0" sLate]
    by - (rule e)
qed

text \<open>
  The claim as stated fails on the tick that ends a race. In \<open>sLate\<close> the finished
  \<open>p7\<close> stands at \<open>5007\<close>; with every draw \<open>0\<close>, \<open>p6\<close> advances to \<open>5008.75\<close>, is
  sorted to the front, crashes to \<open>5006.75\<close> and finishes. The passes of the tick leave
  the order \<open>[6, 7]\<close>, and the loop returns the array in the order \<open>[7, 6]\<close>: the sort
  before the final ranking has moved the crashed participant back within the iteration
  of its crash. All distances are binary fractions.
\<close>

theorem final_sort_shows_crash:
  "raceTick (\<lambda>n. 0) (\<lambda>n. False) sLate =
     Inr \<lparr>state = [p6\<lparr>distance := 20027 / 4, finished := True, currentPriceWei := 924\<rparr>, p7],
          lastOrder = Some [6, 7], tick = 10,
          io = \<lparr>rnd = 3, posts = 3,
                log = [Overtake 6 2 1, WriteFailed 6 1100, Crash 6, WriteFailed 6 880,
                       Finish 6, WriteFailed 6 924]\<rparr>\<rparr>
   \<and> raceLoop (\<lambda>n. 0) (\<lambda>n. False) sLate =
     Some (Inr \<lparr>state = [p7, p6\<lparr>distance := 20027 / 4, finished := True, currentPriceWei := 924\<rparr>],
          lastOrder = Some [6, 7], tick = 10,
          io = \<lparr>rnd = 3, posts = 3,
                log = [Overtake 6 2 1, WriteFailed 6 1100, Crash 6, WriteFailed 6 880,
                       Finish 6, WriteFailed 6 924]\<rparr>\<rparr>)"
  by (rule conjI[OF tick_sLate loop_sLate])

section \<open>Prices follow the events\<close>

lemma priceTrail_say: "priceTrail i (say e w) = priceTrail i w @ adjustmentOf i e"
  by (simp add: priceTrail_def say_def)

lemma priceTrail_tryPost: "priceTrail i (tryPost net j p w) = priceTrail i w"
  by (simp add: priceTrail_def tryPost_log)

lemma priceFollows_cong:
  "priceTrail (rid r) w' = priceTrail (rid r) w \<Longrightarrow> priceFollows base r w \<Longrightarrow> priceFollows base r w'"
  by (simp add: priceFollows_def)

lemma advanceBody_trail: "priceTrail i (snd (advanceBody rng r w)) = priceTrail i w"
  by (simp add: advanceBody_def mathRandom_def priceTrail_def Let_def)

lemma advanceBody_follow:
  "priceFollows base r w \<Longrightarrow>
     priceFollows base (fst (advanceBody rng r w)) (snd (advanceBody rng r w))"
  by (simp add: advanceBody_def mathRandom_def priceFollows_def priceTrail_def Let_def)

lemma crashEvent_trail:
  "priceTrail i (snd (crashEvent net r w)) =
     priceTrail i w @ (if rid r = i then [CrashPenalty] else [])"
  by (simp add: crashEvent_def Let_def priceTrail_tryPost priceTrail_say)

lemma crashEvent_price:
  "fst (crashEvent net r w) =
     r\<lparr>distance := max 0 (distance r - of_nat (speedStat r) * 2),
       currentPriceWei := adjust CrashPenalty (currentPriceWei r)\<rparr>"
  by (simp add: crashEvent_def Let_def)

lemma priceTrail_rnd: "priceTrail i (w\<lparr>rnd := n\<rparr>) = priceTrail i w"
  by (simp add: priceTrail_def)

lemma crashBody_trail:
  "i \<noteq> rid r \<Longrightarrow> priceTrail i (snd (crashBody rng net r w)) = priceTrail i w"
  by (simp add: crashBody_def mathRandom_def crashEvent_trail priceTrail_rnd)

lemma crashBody_follow:
  "priceFollows base r w \<Longrightarrow>
     priceFollows base (fst (crashBody rng net r w)) (snd (crashBody rng net r w))"
  by (simp add: crashBody_def mathRandom_def crashEvent_trail crashEvent_price priceFollows_def
        priceTrail_rnd)

lemma finishBody_price:
  "\<not> finished r \<Longrightarrow> RACE_DISTANCE \<le> distance r \<Longrightarrow>
     fst (finishBody net r w) =
       r\<lparr>finished := True, currentPriceWei := adjust WinnerBonus (currentPriceWei r)\<rparr>"
  by (simp add: finishBody_def Let_def)

lemma finishBody_trail_own:
  "priceTrail i (snd (finishBody net r w)) =
     priceTrail i w
       @ (if \<not> finished r \<and> RACE_DISTANCE \<le> distance r \<and> rid r = i then [WinnerBonus] else [])"
  by (simp add: finishBody_def Let_def priceTrail_tryPost priceTrail_say)

lemma finishBody_trail:
  "i \<noteq> rid r \<Longrightarrow> priceTrail i (snd (finishBody net r w)) = priceTrail i w"
  by (simp add: finishBody_trail_own)

lemma finishBody_follow:
  "priceFollows base r w \<Longrightarrow>
     priceFollows base (fst (finishBody net r w)) (snd (finishBody net r w))"
proof (cases "\<not> finished r \<and> RACE_DISTANCE \<le> distance r")
  case True
  assume "priceFollows base r w"
  with True show ?thesis
    by (simp add: finishBody_trail_own finishBody_price priceFollows_def)
next
  case False
  assume "priceFollows base r w"
  moreover from False have "finishBody net r w = (r, w)" by (auto simp: finishBody_def)
  ultimately show ?thesis by simp
qed

lemma forEach_trail_others:
  assumes "\<And>r w i. i \<noteq> rid r \<Longrightarrow> priceTrail i (snd (body r w)) = priceTrail i w"
    and "i \<notin> rid ` set rs"
  shows "priceTrail i (snd (forEach body rs w)) = priceTrail i w"
  using assms(2)
proof (induction rs arbitrary: w)
  case Nil
  show ?case by simp
next
  case (Cons r rs)
  obtain r' w' where b: "body r w = (r', w')" by (cases "body r w")
  obtain rs' w'' where f: "forEach body rs w' = (rs', w'')" by (cases "forEach body rs w'")
  have "priceTrail i w' = priceTrail i w" using assms(1)[of i r w] Cons.prems b by auto
  moreover have "priceTrail i w'' = priceTrail i w'" using Cons.IH[of w'] Cons.prems f by auto
  ultimately show ?case using b f by simp
qed

lemma forEach_follow:
  assumes own: "\<And>r w. priceFollows base r w \<Longrightarrow> priceFollows base (fst (body r w)) (snd (body r w))"
    and others: "\<And>r w i. i \<noteq> rid r \<Longrightarrow> priceTrail i (snd (body r w)) = priceTrail i w"
    and ids: "\<And>r w. rid (fst (body r w)) = rid r"
    and "distinct (map rid rs)" and "list_all (\<lambda>r. priceFollows base r w) rs"
  shows "list_all (\<lambda>r. priceFollows base r (snd (forEach body rs w))) (fst (forEach body rs w))"
  using assms(4,5)
proof (induction rs arbitrary: w)
  case Nil
  show ?case by simp
next
  case (Cons r rs)
  obtain r' w' where b: "body r w = (r', w')" by (cases "body r w")
  obtain rs' w'' where f: "forEach body rs w' = (rs', w'')" by (cases "forEach body rs w'")
  have nin: "rid r \<notin> rid ` set rs" and d: "distinct (map rid rs)" using Cons.prems(1) by simp_all
  have r': "priceFollows base r' w'" "rid r' = rid r"
    using own[of r w] ids[of r w] Cons.prems(2) b by simp_all
  have "priceTrail (rid r') w'' = priceTrail (rid r') w'"
    using forEach_trail_others[of body "rid r" rs w', OF others nin] f r'(2) by simp
  then have 1: "priceFollows base r' w''" using r'(1) by (rule priceFollows_cong)
  have "list_all (\<lambda>x. priceFollows base x w') rs"
    unfolding list_all_iff
  proof
    fix x assume x: "x \<in> set rs"
    then have "rid x \<noteq> rid r" using nin by (metis imageI)
    then have "priceTrail (rid x) w' = priceTrail (rid x) w" using others[of "rid x" r w] b by simp
    moreover have "priceFollows base x w" using Cons.prems(2) x by (simp add: list_all_iff)
    ultimately show "priceFollows base x w'" by (rule priceFollows_cong)
  qed
  from Cons.IH[OF d this] f have "list_all (\<lambda>x. priceFollows base x w'') rs'" by simp
  with 1 b f show ?case by simp
qed

lemma overtakeEvent_trail:
  "priceTrail i (snd (overtakeEvent net c old new k st w)) =
     priceTrail i w @ (if c = i then [OvertakeBonus] else [])"
  by (simp add: overtakeEvent_def Let_def priceTrail_tryPost priceTrail_say)

lemma overtakeEvent_price:
  "fst (overtakeEvent net c old new k st w) =
     st[k := (st ! k)\<lparr>currentPriceWei := adjust OvertakeBonus (currentPriceWei (st ! k))\<rparr>]"
  by (simp add: overtakeEvent_fst)

lemma overtakeEvent_follow:
  assumes "distinct (map rid st)" and "list_all (\<lambda>r. priceFollows base r w) st"
    and "k < length st" and "rid (st ! k) = c"
  shows "list_all (\<lambda>r. priceFollows base r (snd (overtakeEvent net c old new k st w)))
           (fst (overtakeEvent net c old new k st w))"
  unfolding list_all_length
proof (intro allI impI)
  fix j assume "j < length (fst (overtakeEvent net c old new k st w))"
  then have j: "j < length st" by (simp add: overtakeEvent_price)
  have pj: "priceFollows base (st ! j) w" using assms(2) j by (simp add: list_all_length)
  show "priceFollows base (fst (overtakeEvent net c old new k st w) ! j)
          (snd (overtakeEvent net c old new k st w))"
  proof (cases "j = k")
    case True
    with pj assms(3,4) show ?thesis
      by (simp add: overtakeEvent_price overtakeEvent_trail priceFollows_def)
  next
    case False
    have "rid (st ! j) \<noteq> rid (st ! k)"
      using assms(1,3) j False nth_eq_iff_index_eq[of "map rid st" j k] by simp
    with pj assms(4) False j show ?thesis
      by (simp add: overtakeEvent_price overtakeEvent_trail priceFollows_def)
  qed
qed

lemma overtakeLoop_follow:
  assumes "distinct (map rid st)" and "list_all (\<lambda>r. priceFollows base r w) st"
    and "overtakeLoop net prev rest i st w = Inr (st', w')"
  shows "list_all (\<lambda>r. priceFollows base r w') st'"
  using assms
proof (induction rest arbitrary: i st w)
  case Nil
  then show ?case by simp
next
  case (Cons c rest)
  show ?case
  proof (cases "indexOf prev c > int i")
    case False
    with Cons.prems(3) have "overtakeLoop net prev rest (i + 1) st w = Inr (st', w')" by simp
    from Cons.IH[OF Cons.prems(1,2) this] show ?thesis .
  next
    case True
    with Cons.prems(3) obtain k where k: "findRef (\<lambda>x. rid x = c) st = Some k"
      by (cases "findRef (\<lambda>x. rid x = c) st") simp_all
    from findRef_Some[OF k] have kk: "k < length st" "rid (st ! k) = c" by simp_all
    let ?ev = "overtakeEvent net c (nat (indexOf prev c + 1)) (i + 1) k st w"
    have l: "overtakeLoop net prev rest (i + 1) (fst ?ev) (snd ?ev) = Inr (st', w')"
      using Cons.prems(3) True k by (simp add: split_beta Let_def)
    have "map rid (fst ?ev) = map rid st"
      by (rule all2_drift_rids[OF overtakeEvent_drift])
    then have d: "distinct (map rid (fst ?ev))" using Cons.prems(1) by simp
    from Cons.IH[OF d overtakeEvent_follow[OF Cons.prems(1,2) kk] l] show ?thesis .
  qed
qed

lemma overtakePass_follow:
  assumes "distinct (map rid (state s))" and "pricesFollow base s" and "overtakePass net s = Inr s'"
  shows "pricesFollow base s'"
proof (cases "lastOrder s")
  case None
  with assms show ?thesis by (auto simp: overtakePass_def pricesFollow_def)
next
  case (Some prev)
  with assms(3) obtain st1 w1 where
    l: "overtakeLoop net prev (map rid (state s)) 0 (state s) (io s) = Inr (st1, w1)"
    and s': "s' = s\<lparr>state := st1, io := w1, lastOrder := Some (map rid (state s))\<rparr>"
    by (auto simp: overtakePass_def Let_def split: sum.splits)
  from overtakeLoop_follow[OF assms(1) _ l, of base] assms(2) s' show ?thesis
    by (simp add: pricesFollow_def)
qed

lemma body_rid:
  "rid (fst (advanceBody rng r w)) = rid r"
  "rid (fst (crashBody rng net r w)) = rid r"
  "rid (fst (finishBody net r w)) = rid r"
  using advanceBody_drift[of r rng w] crashBody_drift[of r rng net w] finishBody_drift[of r net w]
  by (simp_all add: drift_def)

lemma advancePass_follow:
  assumes "distinct (map rid (state s))" and "pricesFollow base s"
  shows "pricesFollow base (advancePass rng s)"
  unfolding pricesFollow_def advancePass_state advancePass_io
  using assms
  by (intro forEach_follow advanceBody_follow advanceBody_trail body_rid)
     (simp_all add: pricesFollow_def)

lemma crashPass_follow:
  assumes "distinct (map rid (state s))" and "pricesFollow base s"
  shows "pricesFollow base (crashPass rng net s)"
  unfolding pricesFollow_def crashPass_state crashPass_io
  using assms
  by (intro forEach_follow crashBody_follow crashBody_trail body_rid)
     (simp_all add: pricesFollow_def)

lemma finishPass_follow:
  assumes "distinct (map rid (state s))" and "pricesFollow base s"
  shows "pricesFollow base (finishPass net s)"
  unfolding pricesFollow_def finishPass_state finishPass_io
  using assms
  by (intro forEach_follow finishBody_follow finishBody_trail body_rid)
     (simp_all add: pricesFollow_def)

lemma sortPass_follow: "pricesFollow base s \<Longrightarrow> pricesFollow base (sortPass s)"
  by (simp add: pricesFollow_def sortPass_def sortByDistance_def list_all_iff)

lemma sortByDistance_distinct_ids:
  "distinct (map rid (sortByDistance xs)) = distinct (map rid xs)"
proof -
  have "mset (map rid (sortByDistance xs)) = mset (map rid xs)"
    by (simp add: sortByDistance_def)
  then show ?thesis by (rule mset_eq_imp_distinct_iff)
qed

lemma raceTick_follow:
  assumes "distinct (map rid (state s))" and "pricesFollow base s"
    and "raceTick rng net s = Inr s'"
  shows "pricesFollow base s' \<and> distinct (map rid (state s'))"
proof -
  let ?s0 = "s\<lparr>tick := tick s + 1\<rparr>"
  let ?s1 = "advancePass rng ?s0"
  let ?s2 = "sortPass ?s1"
  obtain s3 where s3: "overtakePass net ?s2 = Inr s3"
    and t: "raceTick rng net s = Inr (finishPass net (crashPass rng net s3))"
    and d3: "list_all2 drift (state ?s2) (state s3)"
    by (rule raceTick_cases[of net rng s]) blast
  have s': "s' = finishPass net (crashPass rng net s3)" using assms(3) t by simp
  have f0: "pricesFollow base ?s0" "distinct (map rid (state ?s0))"
    using assms(1,2) by (simp_all add: pricesFollow_def)
  have f1: "pricesFollow base ?s1" by (rule advancePass_follow[OF f0(2,1)])
  have i1: "distinct (map rid (state ?s1))"
    using all2_drift_rids[OF advancePass_drift[of ?s0 rng]] f0(2) by simp
  have f2: "pricesFollow base ?s2" using f1 by (rule sortPass_follow)
  have i2: "distinct (map rid (state ?s2))"
    using i1 by (simp add: sortPass_def sortByDistance_distinct_ids)
  have f3: "pricesFollow base s3" by (rule overtakePass_follow[OF i2 f2 s3])
  have i3: "distinct (map rid (state s3))" using all2_drift_rids[OF d3] i2 by simp
  have f4: "pricesFollow base (crashPass rng net s3)" by (rule crashPass_follow[OF i3 f3])
  have i4: "distinct (map rid (state (crashPass rng net s3)))"
    using all2_drift_rids[OF crashPass_drift[of s3 rng net]] i3 by simp
  have f5: "pricesFollow base s'" unfolding s' by (rule finishPass_follow[OF i4 f4])
  have i5: "distinct (map rid (state s'))"
    unfolding s' using all2_drift_rids[OF finishPass_drift[of "crashPass rng net s3" net]] i4 by simp
  from f5 i5 show ?thesis ..
qed

lemma raceTicks_follow:
  "distinct (map rid (state s)) \<Longrightarrow> pricesFollow base s \<Longrightarrow> raceTicks n rng net s = Inr s'
     \<Longrightarrow> pricesFollow base s'"
proof (induction n arbitrary: s)
  case 0
  then show ?case by simp
next
  case (Suc n)
  obtain s1 where s1: "raceTick rng net s = Inr s1" using raceTick_ok by blast
  from raceTick_follow[OF Suc.prems(1,2) s1]
  have "pricesFollow base s1" "distinct (map rid (state s1))" by simp_all
  moreover have "raceTicks n rng net s1 = Inr s'" using Suc.prems(3) s1 by simp
  ultimately show ?case using Suc.IH by blast
qed

lemma raceLoop_follow:
  assumes "distinct (map rid (state s))" and "pricesFollow base s"
    and "raceLoop rng net s = Some (Inr s')"
  shows "pricesFollow base s'"
proof -
  from raceLoop_Some[OF assms(3)] obtain n t where
    t: "raceTicks (Suc n) rng net s = Inr t" "s' = t\<lparr>state := sortByDistance (state t)\<rparr>"
    by auto
  have "pricesFollow base t" by (rule raceTicks_follow[OF assms(1,2) t(1)])
  then show ?thesis
    unfolding t(2) by (simp add: pricesFollow_def sortByDistance_def list_all_iff)
qed

lemma failing_writes_complete:
  assumes "upperDraws rng" and "list_all statsOk (state s)"
  shows "\<exists>s'. raceLoop rng net s = Some (Inr s') \<and> list_all finished (state s')"
proof -
  obtain k where "list_all (withinSteps k) (state s)" using steps_exist[OF assms(2)] by blast
  from terminates_within[OF assms(1) this, of net] obtain s' where
    s': "raceLoop rng net s = Some (Inr s')" by blast
  from raceLoop_all_finished[OF this] s' show ?thesis by simp
qed

text \<open>
  Claim C6, as amended. Whatever the transport answers, no tick and no run of the loop
  ends in an exception; a failed request is written to the console and counted, nothing
  else. Each of the three events changes the local price by its percentage, whether its
  request fails or not, and in a race with distinct ids the price of every participant
  stays its starting price with all recorded changes applied, through any number of
  ticks and in the state the loop returns. The run in which every request fails leaves
  the loop exactly when the run with the transport \<open>net\<close> does, and with the same array,
  recorded order, tick count and number of draws; it returns, with everyone finished,
  whenever every participant has a positive speed and every draw lies in \<open>[1/2, 1)\<close>.
\<close>

theorem write_failures_do_not_steer:
  "(\<exists>s'. raceTick rng net s = Inr s')
   \<and> raceLoop rng net s \<noteq> Some (Inl e)
   \<and> rel_sum (=) sameRace (raceTick rng net s) (raceTick rng (\<lambda>n. False) s)
   \<and> rel_option (rel_sum (=) sameRace) (raceLoop rng net s) (raceLoop rng (\<lambda>n. False) s)
   \<and> (upperDraws rng \<and> list_all statsOk (state s) \<longrightarrow>
        (\<exists>s'. raceLoop rng (\<lambda>n. False) s = Some (Inr s') \<and> list_all finished (state s')))
   \<and> tryPost (\<lambda>n. False) i p w = w\<lparr>posts := posts w + 1, log := log w @ [WriteFailed i p]\<rparr>
   \<and> fst (overtakeEvent net c oldRank newRank k st w) =
        st[k := (st ! k)\<lparr>currentPriceWei := adjust OvertakeBonus (currentPriceWei (st ! k))\<rparr>]
   \<and> fst (crashEvent net r w) =
        r\<lparr>distance := max 0 (distance r - of_nat (speedStat r) * 2),
          currentPriceWei := adjust CrashPenalty (currentPriceWei r)\<rparr>
   \<and> (\<not> finished r \<and> RACE_DISTANCE \<le> distance r \<longrightarrow>
        fst (finishBody net r w) =
          r\<lparr>finished := True, currentPriceWei := adjust WinnerBonus (currentPriceWei r)\<rparr>)
   \<and> (distinct (map rid (state s)) \<and> pricesFollow base s \<and> raceTicks n rng net s = Inr s1
        \<longrightarrow> pricesFollow base s1)
   \<and> (distinct (map rid (state s)) \<and> pricesFollow base s \<and> raceLoop rng net s = Some (Inr s2)
        \<longrightarrow> pricesFollow base s2)"
proof -
  obtain t where t: "raceTick rng net s = Inr t" using raceTick_ok by blast
  from raceTick_same[OF sameRace_refl t, of "\<lambda>n. False"] t
  have 1: "rel_sum (=) sameRace (raceTick rng net s) (raceTick rng (\<lambda>n. False) s)" by auto
  have 2: "tryPost (\<lambda>n. False) i p w = w\<lparr>posts := posts w + 1, log := log w @ [WriteFailed i p]\<rparr>"
    by (simp add: tryPost_def postUpdatePrice_def say_def)
  show ?thesis
    using t 1 2 raceLoop_no_error[of rng net s e] raceLoop_same[of rng net s "\<lambda>n. False"]
      failing_writes_complete[of rng s "\<lambda>n. False"]
      overtakeEvent_price[of net c oldRank newRank k st w] crashEvent_price[of net r w]
      finishBody_price[of r net w] raceTicks_follow[of s base n rng net s1]
      raceLoop_follow[of s base rng net s2]
    by blast
qed

text \<open>
  The claim as stated fails: with every request failing and every draw \<open>0\<close>, the race
  of \<open>roster1\<close> never runs to completion.
\<close>

theorem failing_writes_race_never_ends:
  "raceLoop (\<lambda>n. 0) (\<lambda>n. False) (initRace roster1) = None"
proof -
  have "stuckAtStart (initRace roster1)"
    by (simp add: stuckAtStart_def initRace_def roster1_def initParticipant_def)
  then show ?thesis by (rule stuck_forever)
qed


theorem write_failures_do_not_steer_witness:
  "upperDraws (\<lambda>n. 1 / 2) \<and> list_all statsOk (state s12)
   \<and> distinct (map rid (state s12)) \<and> pricesFollow base12 s12
   \<and> raceTicks 1 (\<lambda>n. 1 / 2) (\<lambda>n. False) s12 =
        Inr \<lparr>state = [p2\<lparr>distance := 17, currentPriceWei := 60\<rparr>, p1\<lparr>distance := 13\<rparr>],
             lastOrder = Some [2, 1], tick = 2,
             io = \<lparr>rnd = 6, posts = 1, log = [Overtake 2 2 1, WriteFailed 2 60]\<rparr>\<rparr>
   \<and> pricesFollow base12
        \<lparr>state = [p2\<lparr>distance := 17, currentPriceWei := 60\<rparr>, p1\<lparr>distance := 13\<rparr>],
         lastOrder = Some [2, 1], tick = 2,
         io = \<lparr>rnd = 6, posts = 1, log = [Overtake 2 2 1, WriteFailed 2 60]\<rparr>\<rparr>
   \<and> (\<exists>s2. raceLoop (\<lambda>n. 1 / 2) (\<lambda>n. False) s12 = Some (Inr s2)
          \<and> list_all finished (state s2) \<and> pricesFollow base12 s2)
   \<and> \<not> finished (p4\<lparr>distance := 5005\<rparr>) \<and> RACE_DISTANCE \<le> distance (p4\<lparr>distance := 5005\<rparr>)
   \<and> fst (finishBody (\<lambda>n. False) (p4\<lparr>distance := 5005\<rparr>) w0)
        = p4\<lparr>distance := 5005, finished := True, currentPriceWei := 1050\<rparr>
   \<and> fst (crashEvent (\<lambda>n. False) p1 w0) = p1\<lparr>distance := 0, currentPriceWei := 800\<rparr>
   \<and> fst (overtakeEvent (\<lambda>n. False) 2 2 1 0 [p2, p1] w0) = [p2\<lparr>currentPriceWei := 60\<rparr>, p1]
   \<and> raceLoop (drawsWithZeroAt 2) (\<lambda>n. True) s4 =
     Some (Inr \<lparr>state = [p4\<lparr>distance := 5005, finished := True, currentPriceWei := 840\<rparr>],
          lastOrder = Some [4], tick = 3,
          io = \<lparr>rnd = 9, posts = 2,
                log = [Crash 4, WriteOk 4 800, Finish 4, WriteOk 4 840]\<rparr>\<rparr>)
   \<and> raceLoop (drawsWithZeroAt 2) (\<lambda>n. False) s4 =
     Some (Inr \<lparr>state = [p4\<lparr>distance := 5005, finished := True, currentPriceWei := 840\<rparr>],
          lastOrder = Some [4], tick = 3,
          io = \<lparr>rnd = 9, posts = 2,
                log = [Crash 4, WriteFailed 4 800, Finish 4, WriteFailed 4 840]\<rparr>\<rparr>)"
proof -
  have u: "upperDraws (\<lambda>n. 1 / 2)" by (simp add: upperDraws_def)
  have a: "list_all statsOk (state s12)" by (simp add: s12_def p1_def p2_def statsOk_def)
  have d: "distinct (map rid (state s12))" by code_simp
  have f: "pricesFollow base12 s12" by code_simp
  have t: "raceTicks 1 (\<lambda>n. 1 / 2) (\<lambda>n. False) s12 =
        Inr \<lparr>state = [p2\<lparr>distance := 17, currentPriceWei := 60\<rparr>, p1\<lparr>distance := 13\<rparr>],
             lastOrder = Some [2, 1], tick = 2,
             io = \<lparr>rnd = 6, posts = 1, log = [Overtake 2 2 1, WriteFailed 2 60]\<rparr>\<rparr>"
    by code_simp
  have f1: "pricesFollow base12
        \<lparr>state = [p2\<lparr>distance := 17, currentPriceWei := 60\<rparr>, p1\<lparr>distance := 13\<rparr>],
         lastOrder = Some [2, 1], tick = 2,
         io = \<lparr>rnd = 6, posts = 1, log = [Overtake 2 2 1, WriteFailed 2 60]\<rparr>\<rparr>"
    using write_failures_do_not_steer[where rng = "\<lambda>n. 1 / 2" and net = "\<lambda>n. False" and s = s12
        and base = base12 and n = 1] d f t by blast
  obtain s2 where s2: "raceLoop (\<lambda>n. 1 / 2) (\<lambda>n. False) s12 = Some (Inr s2)"
      "list_all finished (state s2)"
    using write_failures_do_not_steer[where rng = "\<lambda>n. 1 / 2" and net = "\<lambda>n. False" and s = s12]
      u a by blast
  have "pricesFollow base12 s2"
    using write_failures_do_not_steer[where rng = "\<lambda>n. 1 / 2" and net = "\<lambda>n. False" and s = s12
        and base = base12 and ?s2.0 = s2] d f s2(1) by blast
  with s2 have ex: "\<exists>s2. raceLoop (\<lambda>n. 1 / 2) (\<lambda>n. False) s12 = Some (Inr s2)
          \<and> list_all finished (state s2) \<and> pricesFollow base12 s2" by blast
  have e: "\<not> finished (p4\<lparr>distance := 5005\<rparr>) \<and> RACE_DISTANCE \<le> distance (p4\<lparr>distance := 5005\<rparr>)
   \<and> fst (finishBody (\<lambda>n. False) (p4\<lparr>distance := 5005\<rparr>) w0)
        = p4\<lparr>distance := 5005, finished := True, currentPriceWei := 1050\<rparr>
   \<and> fst (crashEvent (\<lambda>n. False) p1 w0) = p1\<lparr>distance := 0, currentPriceWei := 800\<rparr>
   \<and> fst (overtakeEvent (\<lambda>n. False) 2 2 1 0 [p2, p1] w0) = [p2\<lparr>currentPriceWei := 60\<rparr>, p1]"
    by code_simp
  show ?thesis
    using u a d f t f1 ex e loop_s4_zero2_ok loop_s4_zero2 by (intro conjI) simp_all
qed

end
